theory Spec2Isabelle
  imports Main
begin

section \<open>Lifecycle states, run policies and the runner contract\<close>

text \<open>
  Modelled from the spec: the declaration of the newer \<^verbatim>\<open>State\<close> type (the constants
  \<^verbatim>\<open>StateInit\<close>, \<^verbatim>\<open>StateIdle\<close>, \<^verbatim>\<open>StateRun\<close>, \<^verbatim>\<open>StateStop\<close>, \<^verbatim>\<open>StateExit\<close> used by
  \<^verbatim>\<open>service_manager.go\<close>) is not among the sources; the spec gives it as the sum type
  over Init, Idle, Run, Stop and Exit.
\<close>

datatype State = StateInit | StateIdle | StateRun | StateStop | StateExit

text \<open>\<^verbatim>\<open>service_options.go\<close>: the three run policies.\<close>

datatype RunPolicy = RunUntilStoppedPolicy | RunOnceIfSuccessPolicy | RunOncePolicy

record ServiceOpts =
  RunPolicy :: RunPolicy

definition UsingRunPolicy :: "RunPolicy \<Rightarrow> ServiceOpts \<Rightarrow> ServiceOpts" where
  "UsingRunPolicy policy so = so\<lparr>RunPolicy := policy\<rparr>"

text \<open>
  A lifecycle callback of the user's runner takes the service context and returns an
  \<^verbatim>\<open>error\<close>; it may also panic. The three ways a call can end are the values of
  \<open>outcome\<close>: \<open>NoError\<close> is a \<^verbatim>\<open>nil\<close> error, \<open>Err msg\<close> an error whose
  \<^verbatim>\<open>Error()\<close> text is \<open>msg\<close>, \<open>Panics v\<close> a panic whose value prints as \<open>v\<close>.
  Whatever else a callback does happens in the world \<open>'w\<close>, which it receives and
  gives back.
\<close>

datatype outcome = NoError | Err string | Panics string

record 'w Runner =
  Init :: "'w \<Rightarrow> outcome \<times> 'w"
  Idle :: "'w \<Rightarrow> outcome \<times> 'w"
  Run :: "'w \<Rightarrow> outcome \<times> 'w"
  Stop :: "'w \<Rightarrow> outcome \<times> 'w"

text \<open>
  Modelled from the spec: the declaration of \<^verbatim>\<open>DaemonService\<close> is not among the sources;
  the spec gives its fields as Name, Runner, Manager and Options. The manager is the
  function that receives the service, so it is not a field here.
\<close>

record 'w DaemonService =
  Name :: string
  Runner :: "'w Runner"
  Options :: ServiceOpts

text \<open>
  Of the \<^verbatim>\<open>ServiceContext\<close> interface the manager uses \<^verbatim>\<open>Done()\<close> and \<^verbatim>\<open>Log\<close>.
  The manager waits in a \<^verbatim>\<open>select\<close> over \<^verbatim>\<open>sctx.Done()\<close> and the channel of its
  timer. What the \<^verbatim>\<open>select\<close> finds is the environment's, and the world \<open>w\<close> at the
  moment the \<^verbatim>\<open>select\<close> proceeds tells it: \<open>Done_closed sctx w\<close> when the channel
  \<^verbatim>\<open>sctx.Done()\<close> is closed, which is when the context is cancelled;
  \<open>timer_fired sctx w\<close> when the timer has put its value on \<^verbatim>\<open>timeout.C\<close>; and
  \<open>picks_Done sctx w\<close> for the choice of the Go runtime when both cases can proceed
  (a \<^verbatim>\<open>select\<close> with several ready cases takes one of them at random, in no order of
  priority). \<open>after_select sctx w\<close> is the world after the wait. \<^verbatim>\<open>Log\<close> is recorded
  as an event of the run.
\<close>

record 'w ServiceContext =
  Done_closed :: "'w \<Rightarrow> bool"
  timer_fired :: "'w \<Rightarrow> bool"
  picks_Done :: "'w \<Rightarrow> bool"
  after_select :: "'w \<Rightarrow> 'w"

text \<open>
  The \<^verbatim>\<open>select\<close> of lines 64 to 69: \<open>True\<close> when the case \<^verbatim>\<open><-sctx.Done()\<close> is
  taken, \<open>False\<close> when the case \<^verbatim>\<open><-timeout.C\<close> is. With the context cancelled and
  the timer not fired only the first case can proceed; with both ready the runtime
  picks; with the context not cancelled the wait lasts until the timer fires and the
  second case is taken.
\<close>

definition select_Done :: "'w ServiceContext \<Rightarrow> 'w \<Rightarrow> bool \<times> 'w" where
  "select_Done sctx w =
     (if Done_closed sctx w then
        (if timer_fired sctx w then (picks_Done sctx w, after_select sctx w)
         else (True, after_select sctx w))
      else (False, after_select sctx w))"

text \<open>
  \<^verbatim>\<open>log.Level\<close> is an \<^verbatim>\<open>int8\<close> whose constants count up from \<^verbatim>\<open>levelUnknown\<close>
  at -1, which puts \<^verbatim>\<open>LevelError\<close> at 3. A \<^verbatim>\<open>time.Duration\<close> is a number of
  nanoseconds.
\<close>

type_synonym Level = int

definition LevelError :: Level where
  "LevelError = 3"

type_synonym Duration = int

text \<open>\<^verbatim>\<open>service_manager.go\<close>: the manager and its constructor.\<close>

record RunContinuousManager =
  DefaultDelay :: Duration
  StartupDelay :: Duration
  StateTimeouts :: "State \<rightharpoonup> Duration"

definition NewDefaultManager ::
  "(RunContinuousManager \<Rightarrow> RunContinuousManager) list \<Rightarrow> RunContinuousManager" where
  "NewDefaultManager opts =
     fold (\<lambda>opt m. opt m) opts
       \<lparr>DefaultDelay = 0, StartupDelay = 10, StateTimeouts = Map.empty\<rparr>"

section \<open>RunContinuousManager.Manage\<close>

text \<open>
  Everything \<^verbatim>\<open>Manage\<close> does to the outside is an event: the calls of
  \<^verbatim>\<open>updateState\<close>, the calls of the runner's callbacks, the error logs and the
  operations on its timer. A run is the list of its events, oldest first.
\<close>

datatype callback = CbInit | CbIdle | CbRun | CbStop

datatype event =
    NewTimer Duration
  | ResetTimer Duration
  | StopTimer
  | UpdateState string State
  | Invoke callback
  | SctxLog Level string

text \<open>The local variables of \<^verbatim>\<open>Manage\<close>, the world and the events so far.\<close>

record 'w cfg =
  state :: State
  hasStopped :: bool
  world :: 'w
  trace :: "event list"

text \<open>How a Go function body ends: it returns, or it is unwinding with a panic.\<close>

datatype 'a exit = Normal 'a | Panicking string 'a

definition emit :: "event \<Rightarrow> 'w cfg \<Rightarrow> 'w cfg" where
  "emit e c = c\<lparr>trace := trace c @ [e]\<rparr>"

definition log_error :: "string \<Rightarrow> 'w cfg \<Rightarrow> 'w cfg" where
  "log_error msg c = emit (SctxLog LevelError msg) c"

fun call :: "callback \<Rightarrow> 'w Runner \<Rightarrow> 'w \<Rightarrow> outcome \<times> 'w" where
  "call CbInit r w = Init r w"
| "call CbIdle r w = Idle r w"
| "call CbRun r w = Run r w"
| "call CbStop r w = Stop r w"

definition invoke :: "callback \<Rightarrow> 'w DaemonService \<Rightarrow> 'w cfg \<Rightarrow> outcome \<times> 'w cfg" where
  "invoke cb ds c =
     (let c1 = emit (Invoke cb) c;
          (r, w) = call cb (Runner ds) (world c1)
      in (r, c1\<lparr>world := w\<rparr>))"

text \<open>The \<^verbatim>\<open>switch state\<close> of the timer case (lines 76 to 109).\<close>

definition switch_state :: "'w DaemonService \<Rightarrow> 'w cfg \<Rightarrow> 'w cfg exit" where
  "switch_state ds c =
     (case state c of
        StateInit \<Rightarrow>
          (case invoke CbInit ds c of
             (Panics p, c') \<Rightarrow> Panicking p c'
           | (Err e, c') \<Rightarrow> Normal ((log_error e c')\<lparr>state := StateStop\<rparr>)
           | (NoError, c') \<Rightarrow> Normal (c'\<lparr>state := StateIdle\<rparr>))
      | StateIdle \<Rightarrow>
          (case invoke CbIdle ds c of
             (Panics p, c') \<Rightarrow> Panicking p c'
           | (Err e, c') \<Rightarrow> Normal ((log_error e c')\<lparr>state := StateStop\<rparr>)
           | (NoError, c') \<Rightarrow> Normal (c'\<lparr>state := StateRun\<rparr>))
      | StateRun \<Rightarrow>
          (case invoke CbRun ds c of
             (Panics p, c') \<Rightarrow> Panicking p c'
           | (Err e, c') \<Rightarrow> Normal ((log_error e c')\<lparr>state := StateStop\<rparr>)
           | (NoError, c') \<Rightarrow> Normal (c'\<lparr>state := StateStop\<rparr>))
      | StateStop \<Rightarrow>
          (case invoke CbStop ds c of
             (Panics p, c') \<Rightarrow> Panicking p c'
           | (Err e, c') \<Rightarrow> Normal ((log_error e c')\<lparr>state := StateInit, hasStopped := True\<rparr>)
           | (NoError, c') \<Rightarrow> Normal (c'\<lparr>state := StateInit, hasStopped := True\<rparr>))
      | StateExit \<Rightarrow> Normal c)"

text \<open>The reset of the timer for the next state (lines 112 to 116).\<close>

definition reset_timeout :: "RunContinuousManager \<Rightarrow> 'w cfg \<Rightarrow> 'w cfg" where
  "reset_timeout m c =
     (case StateTimeouts m (state c) of
        Some transitionTimeout \<Rightarrow> emit (ResetTimer transitionTimeout) c
      | None \<Rightarrow> emit (ResetTimer (DefaultDelay m)) c)"

text \<open>One pass through the body of the \<^verbatim>\<open>for\<close> loop (lines 61 to 117).\<close>

definition loop_body ::
  "RunContinuousManager \<Rightarrow> 'w ServiceContext \<Rightarrow> 'w DaemonService \<Rightarrow> 'w cfg \<Rightarrow> 'w cfg exit" where
  "loop_body m sctx ds c =
     (let c1 = emit (UpdateState (Name ds) (state c)) c;
          (cancelled, w) = select_Done sctx (world c1);
          c2 = c1\<lparr>world := w\<rparr>
      in if cancelled then Normal (c2\<lparr>state := StateExit\<rparr>)
         else
           (let c3 = (if hasStopped c2 then c2\<lparr>hasStopped := False\<rparr> else c2)
            in case switch_state ds c3 of
                 Panicking p c4 \<Rightarrow> Panicking p c4
               | Normal c4 \<Rightarrow> Normal (reset_timeout m c4)))"

text \<open>
  The loop \<^verbatim>\<open>for state != StateExit\<close>. It runs for as long as the context is not
  cancelled, so the model counts the passes it may still make: \<open>None\<close> is a run that
  has not left the loop within \<open>fuel\<close> passes.
\<close>

fun Manage_loop ::
  "nat \<Rightarrow> RunContinuousManager \<Rightarrow> 'w ServiceContext \<Rightarrow> 'w DaemonService \<Rightarrow> 'w cfg
     \<Rightarrow> 'w cfg exit option" where
  "Manage_loop 0 m sctx ds c = (if state c = StateExit then Some (Normal c) else None)"
| "Manage_loop (Suc fuel) m sctx ds c =
     (if state c = StateExit then Some (Normal c)
      else case loop_body m sctx ds c of
             Panicking p c' \<Rightarrow> Some (Panicking p c')
           | Normal c' \<Rightarrow> Manage_loop fuel m sctx ds c')"

text \<open>After the loop: \<^verbatim>\<open>Stop\<close> unless it has just run (lines 122 to 127).\<close>

definition final_stop :: "'w DaemonService \<Rightarrow> 'w cfg \<Rightarrow> 'w cfg exit" where
  "final_stop ds c =
     (if \<not> hasStopped c then
        (case invoke CbStop ds c of
           (Panics p, c') \<Rightarrow> Panicking p c'
         | (Err e, c') \<Rightarrow> Normal (log_error e c')
         | (NoError, c') \<Rightarrow> Normal c')
      else Normal c)"

definition init_cfg :: "RunContinuousManager \<Rightarrow> 'w \<Rightarrow> 'w cfg" where
  "init_cfg m w =
     \<lparr>state = StateInit, hasStopped = False, world = w, trace = [NewTimer (StartupDelay m)]\<rparr>"

text \<open>The body of \<^verbatim>\<open>Manage\<close> below its two \<^verbatim>\<open>defer\<close> statements (lines 52 to 130).\<close>

definition Manage_body ::
  "nat \<Rightarrow> RunContinuousManager \<Rightarrow> 'w ServiceContext \<Rightarrow> 'w DaemonService \<Rightarrow> 'w
     \<Rightarrow> 'w cfg exit option" where
  "Manage_body fuel m sctx ds w =
     (case Manage_loop fuel m sctx ds (init_cfg m w) of
        None \<Rightarrow> None
      | Some (Panicking p c) \<Rightarrow> Some (Panicking p c)
      | Some (Normal c) \<Rightarrow>
          (case final_stop ds c of
             Panicking p c' \<Rightarrow> Some (Panicking p c')
           | Normal c' \<Rightarrow> Some (Normal (emit (UpdateState (Name ds) StateExit) c'))))"

text \<open>
  The deferred calls, last deferred first: \<^verbatim>\<open>timeout.Stop()\<close>, then the function
  that recovers a panic and logs it (lines 45 to 50).
\<close>

definition deferred :: "'w cfg exit \<Rightarrow> 'w cfg exit" where
  "deferred x =
     (case x of
        Normal c \<Rightarrow> Normal (emit StopTimer c)
      | Panicking p c \<Rightarrow>
          Normal (emit (SctxLog LevelError (''recovered from a panic: '' @ p)) (emit StopTimer c)))"

definition Manage ::
  "nat \<Rightarrow> RunContinuousManager \<Rightarrow> 'w ServiceContext \<Rightarrow> 'w DaemonService \<Rightarrow> 'w
     \<Rightarrow> 'w cfg exit option" where
  "Manage fuel m sctx ds w = map_option deferred (Manage_body fuel m sctx ds w)"

section \<open>The intracom topic\<close>

text \<open>
  \<^verbatim>\<open>intracom/topic.go\<close>, the topic whose subscriber map is guarded by a mutex. The
  operations are modelled one call at a time: each runs from the state the previous
  one left, so the locks have no effect here and interleavings are not modelled.
\<close>

text \<open>
  Modelled from the spec: the declaration of \<^verbatim>\<open>SubscriberConfig\<close> is not among the
  sources; the spec gives its four fields.
\<close>

datatype BufferPolicy = DropOldest | DropNewest | Block

record SubscriberConfig =
  ConsumerGroup :: string
  ErrIfExists :: bool
  BufferSize :: int
  BufferPolicy :: BufferPolicy

text \<open>
  Modelled from the spec: the declarations of \<^verbatim>\<open>subscriber\<close>, \<^verbatim>\<open>newSubscriber\<close> and
  \<^verbatim>\<open>subscriber.close\<close> are not among the sources. By the spec a subscriber owns one
  delivery channel, made when it subscribes and closed exactly once when it is removed;
  \<^verbatim>\<open>topic.go\<close> reads the channel as \<^verbatim>\<open>sub.ch\<close>. Channels are numbered in the order
  they are made.
\<close>

type_synonym chan = nat

record subscriber =
  ch :: chan

text \<open>
  The fields \<open>subscribers\<close> and \<open>closed\<close> are those of the Go struct; \<open>made\<close>
  counts the channels made so far and \<open>closed_chans\<close> holds the channels that have
  been closed.
\<close>

record topic =
  subscribers :: "string \<rightharpoonup> subscriber"
  closed :: bool
  made :: nat
  closed_chans :: "chan set"

text \<open>
  One constructor for each \<^verbatim>\<open>errors.New\<close> of the file; \<open>Error\<close> is the message.
  \<open>TopicClosed\<close> carries the operation that was refused.
\<close>

datatype error =
    TopicClosed string
  | GroupExists string
  | GroupUnknown string
  | AlreadyClosed

fun Error :: "error \<Rightarrow> string" where
  "Error (TopicClosed operation) = ''cannot '' @ operation @ '', topic already closed''"
| "Error (GroupExists g) = ''consumer group '' @ [CHR 0x27] @ g @ '' already exists''"
| "Error (GroupUnknown g) =
     ''consumer group '' @ [CHR 0x27] @ g @ [CHR 0x27] @ '' does not exist''"
| "Error AlreadyClosed = ''topic already closed''"

definition newTopic :: topic where
  "newTopic = \<lparr>subscribers = Map.empty, closed = False, made = 0, closed_chans = {}\<rparr>"

text \<open>
  Modelled from the spec: \<^verbatim>\<open>newSubscriber\<close> makes the channel of a new subscriber and
  \<^verbatim>\<open>close\<close> closes it.
\<close>

definition newSubscriber :: "SubscriberConfig \<Rightarrow> topic \<Rightarrow> subscriber \<times> topic" where
  "newSubscriber conf t = (\<lparr>ch = made t\<rparr>, t\<lparr>made := Suc (made t)\<rparr>)"

definition close_subscriber :: "subscriber \<Rightarrow> topic \<Rightarrow> topic" where
  "close_subscriber sub t = t\<lparr>closed_chans := insert (ch sub) (closed_chans t)\<rparr>"

definition Subscribe :: "SubscriberConfig \<Rightarrow> topic \<Rightarrow> (error + chan) \<times> topic" where
  "Subscribe conf t =
     (if closed t then (Inl (TopicClosed ''subscribe''), t)
      else
        (case subscribers t (ConsumerGroup conf) of
           Some sub \<Rightarrow>
             if ErrIfExists conf then (Inl (GroupExists (ConsumerGroup conf)), t)
             else (Inr (ch sub), t)
         | None \<Rightarrow>
             (let (sub, t1) = newSubscriber conf t
              in (Inr (ch sub),
                  t1\<lparr>subscribers := (subscribers t1)(ConsumerGroup conf \<mapsto> sub)\<rparr>))))"

definition Unsubscribe :: "string \<Rightarrow> topic \<Rightarrow> error option \<times> topic" where
  "Unsubscribe consumer t =
     (if closed t then (Some (TopicClosed ''unsubscribe''), t)
      else
        (case subscribers t consumer of
           None \<Rightarrow> (Some (GroupUnknown consumer), t)
         | Some sub \<Rightarrow>
             (let t1 = close_subscriber sub t
              in (None, t1\<lparr>subscribers := (subscribers t1)(consumer := None)\<rparr>))))"

text \<open>
  \<^verbatim>\<open>closed.Swap(true)\<close> sets the flag and returns what it was. The loop over the
  subscribers closes each one and deletes it, whatever the order.
\<close>

definition Close :: "topic \<Rightarrow> error option \<times> topic" where
  "Close t =
     (if closed t then (Some AlreadyClosed, t\<lparr>closed := True\<rparr>)
      else
        (None,
         t\<lparr>closed := True,
           closed_chans := closed_chans t \<union> ch ` ran (subscribers t),
           subscribers := Map.empty\<rparr>))"

section \<open>The service context\<close>

text \<open>\<^verbatim>\<open>log.Field\<close> and \<^verbatim>\<open>log.String\<close>, from the log package.\<close>

record Field =
  Key :: string
  Value :: string

definition String :: "string \<Rightarrow> string \<Rightarrow> Field" where
  "String key val = \<lparr>Key = key, Value = val\<rparr>"

text \<open>
  Modelled from the spec: the declaration of \<^verbatim>\<open>DaemonLog\<close> is not among the sources;
  the spec gives its fields as Name, Level, Message and Fields, and
  \<^verbatim>\<open>serviceContext.Log\<close> fills exactly these. The fields Name and Level are
  \<open>LogName\<close> and \<open>LogLevel\<close> here.
\<close>

record DaemonLog =
  LogName :: string
  LogLevel :: Level
  Message :: string
  Fields :: "Field list"

text \<open>
  A Go slice is a window on an array: the array it points into, the offset of its first
  element in that array, its length and its capacity (the elements from the offset to
  the end of the array). Two slices cut from one array share its elements. The store
  holds the arrays that have been made, by number. When \<^verbatim>\<open>append\<close> has to move the
  elements to a new array, the capacity of that array is the runtime's choice, at least
  the length needed: \<open>room h n\<close> is what the runtime gives for \<open>n\<close> elements, and the
  elements beyond the length are zero values.
\<close>

record slice =
  arr :: nat
  off :: nat
  len :: nat
  cap :: nat

record store =
  arrays :: "Field list list"
  room :: "nat \<Rightarrow> nat"

definition zero_Field :: Field where
  "zero_Field = \<lparr>Key = [], Value = []\<rparr>"

definition array_at :: "store \<Rightarrow> nat \<Rightarrow> Field list" where
  "array_at h a = (if a < length (arrays h) then arrays h ! a else [])"

text \<open>The elements \<^verbatim>\<open>s[0]\<close> to \<^verbatim>\<open>s[len(s)-1]\<close> of a slice, as the store has them.\<close>

definition elems :: "store \<Rightarrow> slice \<Rightarrow> Field list" where
  "elems h s = take (len s) (drop (off s) (array_at h (arr s)))"

text \<open>
  The expression \<^verbatim>\<open>s[i:j]\<close> is a window on the array of \<^verbatim>\<open>s\<close> that starts at its
  element \<^verbatim>\<open>i\<close> and keeps the capacity from there on.
\<close>

definition reslice :: "slice \<Rightarrow> nat \<Rightarrow> nat \<Rightarrow> slice" where
  "reslice s i j = \<lparr>arr = arr s, off = off s + i, len = j - i, cap = cap s - i\<rparr>"

text \<open>
  The builtin \<^verbatim>\<open>append(s, xs...)\<close>. When the capacity of \<^verbatim>\<open>s\<close> holds the new
  elements they are written into the array of \<^verbatim>\<open>s\<close>, right after its window, and the
  result is the longer window on the same array (\<open>overwrite A i xs\<close> is the array
  \<open>A\<close> with \<open>xs\<close> written from the place \<open>i\<close> on); whatever other slice looks at
  these places sees the new elements. Otherwise the elements of \<^verbatim>\<open>s\<close> and the new ones go
  to a new array. The new elements are those the source slice had before the call,
  also when source and destination overlap.
\<close>

definition overwrite :: "Field list \<Rightarrow> nat \<Rightarrow> Field list \<Rightarrow> Field list" where
  "overwrite A i xs = take i A @ xs @ drop (i + length xs) A"

definition append_slice :: "slice \<Rightarrow> Field list \<Rightarrow> store \<Rightarrow> slice \<times> store" where
  "append_slice s xs h =
     (let n = len s + length xs
      in if n \<le> cap s then
           (s\<lparr>len := n\<rparr>,
            h\<lparr>arrays := (arrays h)[arr s := overwrite (array_at h (arr s)) (off s + len s) xs]\<rparr>)
         else
           (let c = max n (room h n)
            in (\<lparr>arr = length (arrays h), off = 0, len = n, cap = c\<rparr>,
                h\<lparr>arrays := arrays h @ [elems h s @ xs @ replicate (c - n) zero_Field]\<rparr>)))"

text \<open>
  A cancellation scope (a \<^verbatim>\<open>context.Context\<close>) is the background scope or a child made by
  \<^verbatim>\<open>context.WithCancel\<close>; the number tells children of one parent apart. The log
  channel and the topic are handles; what has been sent on each log channel is a list.
  The field \<^verbatim>\<open>fields\<close> of the struct is \<open>fields'\<close> here. It is a slice of
  \<^verbatim>\<open>log.Field\<close>, and the struct takes the representation of the slice as a parameter:
  the list of its elements where the code makes the slice itself and nothing else
  looks at its array, the window on an array of the store where the slice comes from
  the caller.
\<close>

datatype scope = Background | WithCancel scope nat

record 'f serviceContext =
  Context :: scope
  name :: string
  fields' :: 'f
  logC :: chan
  icStates :: nat

definition newServiceContextWithCancel ::
  "scope \<Rightarrow> nat \<Rightarrow> string \<Rightarrow> chan \<Rightarrow> nat \<Rightarrow> Field list serviceContext \<times> scope" where
  "newServiceContextWithCancel parent k nm lc ic =
     (let ctx = WithCancel parent k;
          fields0 = [];
          fields1 = (if nm \<noteq> [] then fields0 @ [String ''service'' nm] else fields0)
      in (\<lparr>Context = ctx, name = nm, fields' = fields1 @ fields1, logC = lc, icStates = ic\<rparr>,
          ctx))"

definition WithParent :: "'f serviceContext \<Rightarrow> scope \<Rightarrow> 'f serviceContext" where
  "WithParent sc parent =
     \<lparr>Context = parent, name = name sc, fields' = fields' sc, logC = logC sc,
      icStates = icStates sc\<rparr>"

text \<open>
  \<^verbatim>\<open>WithFields\<close>, lines 70 to 78. The variadic parameter \<^verbatim>\<open>fields\<close> is the caller's
  slice when the call is \<^verbatim>\<open>sc.WithFields(s...)\<close>, and a new slice of exactly the
  arguments, with no capacity to spare, when they are given one by one. The new context's fields are
  \<^verbatim>\<open>append(fields, sc.fields...)\<close>: the destination of the \<^verbatim>\<open>append\<close> is the slice of
  the caller, \<open>given\<close> here.
\<close>

definition WithFields ::
  "slice serviceContext \<Rightarrow> slice \<Rightarrow> store \<Rightarrow> slice serviceContext \<times> store" where
  "WithFields sc given h =
     (let (fs, h') = append_slice given (elems h (fields' sc)) h
      in (\<lparr>Context = Context sc, name = name sc, fields' = fs, logC = logC sc,
           icStates = icStates sc\<rparr>, h'))"

text \<open>
  \<^verbatim>\<open>Log\<close>, lines 84 to 91. The record is sent with the fields of the call followed by
  those of the context, as they are at the send.
\<close>

definition Log ::
  "Field list serviceContext \<Rightarrow> Level \<Rightarrow> string \<Rightarrow> Field list \<Rightarrow> (chan \<Rightarrow> DaemonLog list)
     \<Rightarrow> (chan \<Rightarrow> DaemonLog list)" where
  "Log sc level message fs sent =
     sent(logC sc := sent (logC sc) @
       [\<lparr>LogName = name sc, LogLevel = level, Message = message, Fields = fs @ fields' sc\<rparr>])"

section \<open>Watching the published states\<close>

text \<open>
  Modelled from the spec: the declarations of \<^verbatim>\<open>ServiceStates\<close>,
  \<^verbatim>\<open>ServiceAction\<close> and \<^verbatim>\<open>ServiceFilter\<close> are not among the sources. The spec gives
  \<^verbatim>\<open>ServiceStates\<close> as a mapping from service names to states, the actions Entering
  and Exiting, and the filter as a mode (Include, Exclude or None) with a set of names.
  \<open>OtherAction\<close> stands for every value of the action type that is neither, which
  the \<^verbatim>\<open>default\<close> branch of the code receives.
\<close>

type_synonym ServiceStates = "string \<rightharpoonup> State"

datatype ServiceAction = Entering | Exiting | OtherAction

datatype FilterMode = None_Mode | Include | Exclude

record ServiceFilter =
  Mode :: FilterMode
  Names :: "string set"

text \<open>
  Each watch is a goroutine that receives snapshots from its subscription and sends
  what it selects on its own channel. The model is what the goroutine does with one
  received snapshot: \<open>Some m\<close> when it sends \<open>m\<close>, \<open>None\<close> when it sends nothing.
  That the send itself waits for the reader or for the cancellation is not modelled.

  \<^verbatim>\<open>WatchAllServices\<close>, lines 138 to 166: the loop over \<^verbatim>\<open>services\<close> fills
  \<^verbatim>\<open>interestedServices\<close>, and the snapshot is sent when the map has as many entries
  as \<^verbatim>\<open>services\<close> has elements.
\<close>

definition interested_step ::
  "ServiceAction \<Rightarrow> State \<Rightarrow> ServiceStates \<Rightarrow> ServiceStates \<Rightarrow> string \<Rightarrow> ServiceStates" where
  "interested_step action target states interestedServices nm =
     (case action of
        Entering \<Rightarrow>
          (case states nm of
             Some val \<Rightarrow> if val = target then interestedServices(nm \<mapsto> val) else interestedServices
           | None \<Rightarrow> interestedServices)
      | Exiting \<Rightarrow>
          (case states nm of
             Some val \<Rightarrow> if val \<noteq> target then interestedServices(nm \<mapsto> val) else interestedServices
           | None \<Rightarrow> interestedServices)
      | OtherAction \<Rightarrow> interestedServices)"

definition WatchAllServices ::
  "ServiceAction \<Rightarrow> State \<Rightarrow> string list \<Rightarrow> ServiceStates \<Rightarrow> ServiceStates option" where
  "WatchAllServices action target services states =
     (let interestedServices = foldl (interested_step action target states) Map.empty services
      in if card (dom interestedServices) = length services then Some interestedServices
         else None)"

text \<open>\<^verbatim>\<open>WatchAnyServices\<close>, lines 213 to 235: the same loop, sent when the map is not empty.\<close>

definition WatchAnyServices ::
  "ServiceAction \<Rightarrow> State \<Rightarrow> string list \<Rightarrow> ServiceStates \<Rightarrow> ServiceStates option" where
  "WatchAnyServices action target services states =
     (let interestedServices = foldl (interested_step action target states) Map.empty services
      in if card (dom interestedServices) > 0 then Some interestedServices else None)"

text \<open>
  \<^verbatim>\<open>WatchAllStates\<close>, lines 282 to 315. The loop \<^verbatim>\<open>for name, state := range states\<close>
  visits every entry of the map once, in an order Go does not fix: \<open>entries\<close> is the
  list of the entries in the order of the visit.
\<close>

definition range_of :: "('k \<rightharpoonup> 'v) \<Rightarrow> ('k \<times> 'v) list \<Rightarrow> bool" where
  "range_of m entries \<longleftrightarrow> distinct (map fst entries) \<and> map_of entries = m"

definition filter_step ::
  "ServiceFilter \<Rightarrow> ServiceStates \<Rightarrow> string \<times> State \<Rightarrow> ServiceStates" where
  "filter_step flt filteredInterests entry =
     (case entry of (nm, st) \<Rightarrow>
        (case Mode flt of
           Include \<Rightarrow> if nm \<in> Names flt then filteredInterests(nm \<mapsto> st) else filteredInterests
         | Exclude \<Rightarrow> if nm \<notin> Names flt then filteredInterests(nm \<mapsto> st) else filteredInterests
         | None_Mode \<Rightarrow> filteredInterests))"

definition WatchAllStates ::
  "ServiceFilter \<Rightarrow> ServiceStates \<Rightarrow> (string \<times> State) list \<Rightarrow> ServiceStates option" where
  "WatchAllStates flt states entries =
     (if Names flt = {} \<or> Mode flt = None_Mode then Some states
      else Some (foldl (filter_step flt) Map.empty entries))"

section \<open>Observing a run\<close>

text \<open>
  The functions of this section read a run; none of them is part of the program.
  \<open>cfg_of\<close> forgets how a body ended, \<open>next_state\<close> is the value of the variable
  \<^verbatim>\<open>state\<close> after a pass that returned, \<open>invokes\<close> the callbacks a run has called,
  \<open>updates\<close> its calls of \<^verbatim>\<open>updateState\<close> and \<open>published\<close> the states of these calls.
\<close>

fun cfg_of :: "'a exit \<Rightarrow> 'a" where
  "cfg_of (Normal c) = c"
| "cfg_of (Panicking p c) = c"

fun next_state :: "'w cfg exit \<Rightarrow> State option" where
  "next_state (Normal c) = Some (state c)"
| "next_state (Panicking p c) = None"

fun state_of :: "callback \<Rightarrow> State" where
  "state_of CbInit = StateInit"
| "state_of CbIdle = StateIdle"
| "state_of CbRun = StateRun"
| "state_of CbStop = StateStop"

fun callback_of :: "State \<Rightarrow> callback option" where
  "callback_of StateInit = Some CbInit"
| "callback_of StateIdle = Some CbIdle"
| "callback_of StateRun = Some CbRun"
| "callback_of StateStop = Some CbStop"
| "callback_of StateExit = None"

fun invokes :: "event list \<Rightarrow> callback list" where
  "invokes [] = []"
| "invokes (Invoke cb # es) = cb # invokes es"
| "invokes (e # es) = invokes es"

fun updates :: "event list \<Rightarrow> (string \<times> State) list" where
  "updates [] = []"
| "updates (UpdateState n s # es) = (n, s) # updates es"
| "updates (e # es) = updates es"

definition published :: "event list \<Rightarrow> State list" where
  "published t = map snd (updates t)"

definition last_invoke :: "event list \<Rightarrow> callback option" where
  "last_invoke t = (if invokes t = [] then None else Some (last (invokes t)))"

text \<open>
  \<open>passes n\<close> is the run after \<open>n\<close> passes of the loop, or where it ended if it
  ended before: the runs that never end have these prefixes too.
\<close>

fun passes ::
  "nat \<Rightarrow> RunContinuousManager \<Rightarrow> 'w ServiceContext \<Rightarrow> 'w DaemonService \<Rightarrow> 'w cfg
     \<Rightarrow> 'w cfg exit" where
  "passes 0 m sctx ds c = Normal c"
| "passes (Suc n) m sctx ds c =
     (if state c = StateExit then Normal c
      else case loop_body m sctx ds c of
             Panicking p c' \<Rightarrow> Panicking p c'
           | Normal c' \<Rightarrow> passes n m sctx ds c')"

text \<open>
  \<open>announced n t\<close>: every call of a callback in \<open>t\<close> comes right after the call
  \<^verbatim>\<open>updateState(n, s)\<close> for the state \<open>s\<close> of that callback. The function goes
  through the events with the event before the current one at hand.
\<close>

fun announced_from :: "string \<Rightarrow> event option \<Rightarrow> event list \<Rightarrow> bool" where
  "announced_from n prev [] = True"
| "announced_from n prev (e # es) =
     ((case e of Invoke cb \<Rightarrow> prev = Some (UpdateState n (state_of cb)) | _ \<Rightarrow> True) \<and>
      announced_from n (Some e) es)"

definition announced :: "string \<Rightarrow> event list \<Rightarrow> bool" where
  "announced n t = announced_from n None t"

text \<open>
  The transition table of the specification, as a relation between a state and the
  state that may follow it: the rows of each callback's two results, and Exit from
  every state of the loop.
\<close>

fun table_step :: "State \<Rightarrow> State \<Rightarrow> bool" where
  "table_step StateInit s' = (s' = StateIdle \<or> s' = StateStop \<or> s' = StateExit)"
| "table_step StateIdle s' = (s' = StateRun \<or> s' = StateStop \<or> s' = StateExit)"
| "table_step StateRun s' = (s' = StateStop \<or> s' = StateExit)"
| "table_step StateStop s' = (s' = StateInit \<or> s' = StateExit)"
| "table_step StateExit s' = False"

text \<open>What holds of the manager's variables and events at the head of the loop.\<close>

definition loop_inv :: "'w DaemonService \<Rightarrow> 'w cfg \<Rightarrow> bool" where
  "loop_inv ds c \<longleftrightarrow>
     announced (Name ds) (trace c) \<and>
     hasStopped c = (last_invoke (trace c) = Some CbStop) \<and>
     StateExit \<notin> set (published (trace c)) \<and>
     successively table_step (published (trace c) @ [state c]) \<and>
     hd (published (trace c) @ [state c]) = StateInit"

text \<open>
  The predicate of the specification for the watches: what it is for the service
  \<open>nm\<close> to satisfy an action and a target state in a snapshot.
\<close>

definition satisfies :: "ServiceAction \<Rightarrow> State \<Rightarrow> ServiceStates \<Rightarrow> string \<Rightarrow> bool" where
  "satisfies action target states nm =
     (case action of
        Entering \<Rightarrow> states nm = Some target
      | Exiting \<Rightarrow> (case states nm of Some val \<Rightarrow> val \<noteq> target | None \<Rightarrow> False)
      | OtherAction \<Rightarrow> False)"

text \<open>
  A slice of a store: its length is within its capacity and its capacity within the
  array it points into. Every slice a Go program holds is one; the \<^verbatim>\<open>nil\<close> slice is
  the one of capacity 0.
\<close>

definition valid :: "store \<Rightarrow> slice \<Rightarrow> bool" where
  "valid h s = (len s \<le> cap s \<and> off s + cap s \<le> length (array_at h (arr s)))"

subsection \<open>Concrete services and contexts\<close>

text \<open>
  A world that counts the waits of the manager; a context that is cancelled at the
  wait number \<open>k\<close>, where each earlier wait ends with the timer fired and each wait
  from \<open>k\<close> on finds the context cancelled before the timer has fired; a runner whose
  four callbacks end in four given ways; the service \<^verbatim>\<open>S1\<close> around a runner; and
  the manager's variables on entering a state.
\<close>

definition cancel_after :: "nat \<Rightarrow> nat ServiceContext" where
  "cancel_after k =
     \<lparr>Done_closed = (\<lambda>w. k \<le> w), timer_fired = (\<lambda>w. w < k), picks_Done = (\<lambda>w. True),
      after_select = Suc\<rparr>"

text \<open>
  A context that is cancelled before the manager starts, with a timer that has fired
  at every wait; the runtime takes the timer case at the first \<open>k\<close> waits and the
  \<^verbatim>\<open>Done\<close> case from then on.
\<close>

definition cancelled_timer_first :: "nat \<Rightarrow> nat ServiceContext" where
  "cancelled_timer_first k =
     \<lparr>Done_closed = (\<lambda>w. True), timer_fired = (\<lambda>w. True), picks_Done = (\<lambda>w. k \<le> w),
      after_select = Suc\<rparr>"

definition fixed_runner :: "outcome \<Rightarrow> outcome \<Rightarrow> outcome \<Rightarrow> outcome \<Rightarrow> 'w Runner" where
  "fixed_runner i d r s =
     \<lparr>Init = (\<lambda>w. (i, w)), Idle = (\<lambda>w. (d, w)), Run = (\<lambda>w. (r, w)), Stop = (\<lambda>w. (s, w))\<rparr>"

definition svc :: "'w Runner \<Rightarrow> RunPolicy \<Rightarrow> 'w DaemonService" where
  "svc r p = \<lparr>Name = ''S1'', Runner = r, Options = \<lparr>RunPolicy = p\<rparr>\<rparr>"

definition at_state :: "State \<Rightarrow> nat cfg" where
  "at_state s = \<lparr>state = s, hasStopped = False, world = 0, trace = []\<rparr>"

text \<open>
  A topic with the one consumer group \<^verbatim>\<open>g1\<close>, the context of the service \<^verbatim>\<open>S1\<close>,
  and a snapshot of two services with one order in which its entries may be visited.
\<close>

definition topic1 :: topic where
  "topic1 = snd (Subscribe \<lparr>ConsumerGroup = ''g1'', ErrIfExists = False, BufferSize = 1,
      BufferPolicy = DropOldest\<rparr> newTopic)"

definition sc1 :: "Field list serviceContext" where
  "sc1 = fst (newServiceContextWithCancel Background 0 ''S1'' 7 3)"

definition states1 :: ServiceStates where
  "states1 = [''a'' \<mapsto> StateRun, ''b'' \<mapsto> StateIdle]"

definition entries1 :: "(string \<times> State) list" where
  "entries1 = [(''b'', StateIdle), (''a'', StateRun)]"

text \<open>
  A store with four arrays: the array of \<^verbatim>\<open>base := []log.Field{A, B, C}\<close>, the array of
  the two fields of the context of \<^verbatim>\<open>S1\<close>, and the arrays of the arguments \<^verbatim>\<open>A\<close>
  and \<^verbatim>\<open>B\<close> given one by one; the slice \<^verbatim>\<open>base\<close>, the two argument slices, and
  the context of \<^verbatim>\<open>S1\<close> with its fields in the store.
\<close>

definition store1 :: store where
  "store1 =
     \<lparr>arrays = [[String ''k'' ''A'', String ''k'' ''B'', String ''k'' ''C''],
                [String ''service'' ''S1'', String ''service'' ''S1''],
                [String ''k'' ''A''], [String ''k'' ''B'']],
      room = (\<lambda>n. n)\<rparr>"

definition base1 :: slice where
  "base1 = \<lparr>arr = 0, off = 0, len = 3, cap = 3\<rparr>"

definition arg_A :: slice where
  "arg_A = \<lparr>arr = 2, off = 0, len = 1, cap = 1\<rparr>"

definition arg_B :: slice where
  "arg_B = \<lparr>arr = 3, off = 0, len = 1, cap = 1\<rparr>"

definition sc2 :: "slice serviceContext" where
  "sc2 = \<lparr>Context = WithCancel Background 0, name = ''S1'',
     fields' = \<lparr>arr = 1, off = 0, len = 2, cap = 2\<rparr>, logC = 7, icStates = 3\<rparr>"

section \<open>The manager: facts about one pass and about the loop\<close>

lemma invokes_append: "invokes (xs @ ys) = invokes xs @ invokes ys"
  by (induction xs rule: invokes.induct) auto

lemma updates_append: "updates (xs @ ys) = updates xs @ updates ys"
  by (induction xs rule: updates.induct) auto

lemma announced_from_any:
  "announced_from n None es \<Longrightarrow> announced_from n prev es"
  by (cases es) (auto split: event.splits)

lemma announced_from_append:
  "announced_from n prev (xs @ ys) =
     (announced_from n prev xs \<and> announced_from n (if xs = [] then prev else Some (last xs)) ys)"
  by (induction xs arbitrary: prev) auto

lemma announced_append: "announced n xs \<Longrightarrow> announced n ys \<Longrightarrow> announced n (xs @ ys)"
  by (simp add: announced_def announced_from_append announced_from_any)

lemma announced_from_no_invokes: "invokes es = [] \<Longrightarrow> announced_from n prev es"
proof (induction es arbitrary: prev)
  case Nil
  then show ?case by simp
next
  case (Cons e es)
  then show ?case by (cases e) auto
qed

lemma announced_no_invokes: "invokes es = [] \<Longrightarrow> announced n es"
  by (simp add: announced_def announced_from_no_invokes)

lemma announced_update_invoke:
  "invokes es = [] \<Longrightarrow> announced n (UpdateState n (state_of cb) # Invoke cb # es)"
  by (simp add: announced_def announced_from_no_invokes)

lemma announced_from_nth:
  "announced_from n prev t \<Longrightarrow> i < length t \<Longrightarrow> t ! i = Invoke cb \<Longrightarrow>
     (if i = 0 then prev else Some (t ! (i - 1))) = Some (UpdateState n (state_of cb))"
proof (induction t arbitrary: prev i)
  case Nil
  then show ?case by simp
next
  case (Cons e t)
  show ?case
  proof (cases i)
    case 0
    with Cons.prems show ?thesis by simp
  next
    case (Suc j)
    with Cons.prems have "announced_from n (Some e) t" "j < length t" "t ! j = Invoke cb"
      by simp_all
    from Cons.IH[OF this] show ?thesis
      by (cases j) (simp_all add: Suc)
  qed
qed

text \<open>What \<open>announced\<close> says, by positions in the list of events.\<close>

lemma announced_nth:
  assumes "announced n t" and "i < length t" and "t ! i = Invoke cb"
  shows "0 < i \<and> t ! (i - 1) = UpdateState n (state_of cb)"
  using announced_from_nth[OF assms(1)[unfolded announced_def] assms(2,3)]
  by (cases i) simp_all

lemma published_append: "published (xs @ ys) = published xs @ published ys"
  by (simp add: published_def updates_append)

lemma invoke_facts:
  assumes "invoke cb ds c = (r, c')"
  shows "trace c' = trace c @ [Invoke cb]" and "hasStopped c' = hasStopped c"
    and "state c' = state c" and "call cb (Runner ds) (world c) = (r, world c')"
  using assms by (auto simp: invoke_def emit_def Let_def split: prod.splits)

lemma log_error_facts:
  "trace (log_error e c) = trace c @ [SctxLog LevelError e]"
  "hasStopped (log_error e c) = hasStopped c"
  "state (log_error e c) = state c"
  "world (log_error e c) = world c"
  by (simp_all add: log_error_def emit_def)

lemma switch_state_Panicking:
  assumes "switch_state ds c = Panicking p c'" and "callback_of (state c) = Some cb"
  shows "trace c' = trace c @ [Invoke cb]"
  using assms
  by (cases "state c")
    (auto simp: switch_state_def split: prod.splits outcome.splits dest: invoke_facts(1))

lemma switch_state_Normal:
  assumes "switch_state ds c = Normal c'" and "callback_of (state c) = Some cb"
  shows "\<exists>lg. trace c' = trace c @ Invoke cb # lg \<and> invokes lg = [] \<and> updates lg = []"
    and "hasStopped c' = (cb = CbStop \<or> hasStopped c)"
  using assms
  by (cases "state c";
      auto simp: switch_state_def log_error_facts split: prod.splits outcome.splits
        dest: invoke_facts(1) invoke_facts(2))+


lemma select_Done_cancelled:
  assumes "Done_closed sctx w \<and> (\<not> timer_fired sctx w \<or> picks_Done sctx w)"
  shows "select_Done sctx w = (True, after_select sctx w)"
  using assms by (auto simp: select_Done_def)

lemma select_Done_timer:
  assumes "\<not> Done_closed sctx w \<or> timer_fired sctx w \<and> \<not> picks_Done sctx w"
  shows "select_Done sctx w = (False, after_select sctx w)"
  using assms by (auto simp: select_Done_def)

lemma select_Done_True:
  assumes "select_Done sctx w = (True, w1)"
  shows "Done_closed sctx w" and "w1 = after_select sctx w"
  using assms by (auto simp: select_Done_def split: if_splits)

lemma loop_body_cancelled:
  assumes "select_Done sctx (world c) = (True, w)"
  shows "loop_body m sctx ds c =
    Normal (c\<lparr>trace := trace c @ [UpdateState (Name ds) (state c)], world := w, state := StateExit\<rparr>)"
  using assms by (simp add: loop_body_def emit_def)

lemma loop_body_timer:
  assumes "select_Done sctx (world c) = (False, w)"
  shows "loop_body m sctx ds c =
    (case switch_state ds
        (c\<lparr>trace := trace c @ [UpdateState (Name ds) (state c)], world := w, hasStopped := False\<rparr>) of
       Panicking p c4 \<Rightarrow> Panicking p c4
     | Normal c4 \<Rightarrow> Normal (reset_timeout m c4))"
proof -
  have reset: "(if hasStopped c2 then c2\<lparr>hasStopped := False\<rparr> else c2) = c2\<lparr>hasStopped := False\<rparr>"
    for c2 :: "'a cfg"
    by (cases c2) simp
  show ?thesis
    using assms by (simp add: loop_body_def emit_def reset)
qed

lemma reset_timeout_facts:
  "\<exists>d. trace (reset_timeout m c) = trace c @ [ResetTimer d]"
  "hasStopped (reset_timeout m c) = hasStopped c"
  "state (reset_timeout m c) = state c"
  "world (reset_timeout m c) = world c"
  by (simp_all add: reset_timeout_def emit_def split: option.splits)

lemma switch_state_next:
  assumes "switch_state ds c = Normal c'" and "state c \<noteq> StateExit"
  shows "table_step (state c) (state c')"
  using assms
  by (cases "state c";
      auto simp: switch_state_def log_error_facts split: prod.splits outcome.splits
        dest: invoke_facts(3))

lemma loop_body_next:
  assumes "loop_body m sctx ds c = Normal c'" and "state c \<noteq> StateExit"
  shows "table_step (state c) (state c')"
proof -
  obtain b w where sel: "select_Done sctx (world c) = (b, w)"
    by (cases "select_Done sctx (world c)")
  show ?thesis
  proof (cases b)
    case True
    then show ?thesis using sel assms by (cases "state c") (auto simp: loop_body_cancelled)
  next
    case False
    let ?c3 = "c\<lparr>trace := trace c @ [UpdateState (Name ds) (state c)], world := w, hasStopped := False\<rparr>"
    from assms(1) sel False obtain c4 where sw: "switch_state ds ?c3 = Normal c4"
      and c': "c' = reset_timeout m c4"
      by (auto simp: loop_body_timer split: exit.splits)
    from switch_state_next[OF sw] assms(2) show ?thesis
      by (simp add: c' reset_timeout_facts)
  qed
qed

lemma Manage_loop_invariant:
  assumes "Manage_loop fuel m sctx ds c = Some r" and "I c"
    and step: "\<And>c c'. I c \<Longrightarrow> state c \<noteq> StateExit \<Longrightarrow> loop_body m sctx ds c = Normal c' \<Longrightarrow> I c'"
  shows "(\<exists>c'. r = Normal c' \<and> I c' \<and> state c' = StateExit) \<or>
         (\<exists>c0 p c'. I c0 \<and> state c0 \<noteq> StateExit \<and> loop_body m sctx ds c0 = Panicking p c' \<and> r = Panicking p c')"
  using assms(1,2)
proof (induction fuel arbitrary: c)
  case 0
  then show ?case by (auto split: if_splits)
next
  case (Suc fuel)
  show ?case
  proof (cases "state c = StateExit")
    case True
    then show ?thesis using Suc.prems by auto
  next
    case False
    show ?thesis
    proof (cases "loop_body m sctx ds c")
      case (Normal c1)
      with False Suc.prems have "Manage_loop fuel m sctx ds c1 = Some r" by simp
      moreover have "I c1" using step[OF Suc.prems(2) False Normal] .
      ultimately show ?thesis by (rule Suc.IH)
    next
      case (Panicking p c1)
      with False Suc.prems show ?thesis by auto
    qed
  qed
qed

lemma Manage_loop_Exit:
  "state c = StateExit \<Longrightarrow> Manage_loop k m sctx ds c = Some (Normal c)"
  by (cases k) simp_all

lemma Manage_loop_mono:
  assumes "Manage_loop fuel m sctx ds c = Some r"
  shows "Manage_loop (fuel + k) m sctx ds c = Some r"
  using assms
  by (induction fuel arbitrary: c) (auto simp: Manage_loop_Exit split: if_splits exit.splits)


lemma Manage_mono:
  assumes "Manage fuel m sctx ds w = Some x"
  shows "Manage (fuel + k) m sctx ds w = Some x"
proof -
  from assms obtain r where r: "Manage_loop fuel m sctx ds (init_cfg m w) = Some r"
    by (auto simp: Manage_def Manage_body_def split: option.splits)
  from Manage_loop_mono[OF r] have "Manage_loop (fuel + k) m sctx ds (init_cfg m w) = Some r" .
  with assms r show ?thesis by (simp add: Manage_def Manage_body_def)
qed

lemma callback_of_state_of: "callback_of s = Some cb \<Longrightarrow> state_of cb = s"
  by (cases s) auto

lemma loop_body_cases:
  assumes "state c \<noteq> StateExit"
  obtains
    (cancel) w where
      "select_Done sctx (world c) = (True, w)"
      "loop_body m sctx ds c =
         Normal (c\<lparr>trace := trace c @ [UpdateState (Name ds) (state c)], world := w, state := StateExit\<rparr>)"
  | (panic) cb p c' where
      "callback_of (state c) = Some cb"
      "loop_body m sctx ds c = Panicking p c'"
      "trace c' = trace c @ [UpdateState (Name ds) (state c), Invoke cb]"
  | (normal) cb c' lg where
      "callback_of (state c) = Some cb"
      "loop_body m sctx ds c = Normal c'"
      "trace c' = trace c @ UpdateState (Name ds) (state c) # Invoke cb # lg"
      "invokes lg = []" "updates lg = []"
      "hasStopped c' = (cb = CbStop)"
      "table_step (state c) (state c')"
proof -
  obtain b w where sel: "select_Done sctx (world c) = (b, w)"
    by (cases "select_Done sctx (world c)")
  obtain cb where cb: "callback_of (state c) = Some cb"
    using assms by (cases "state c") auto
  show ?thesis
  proof (cases b)
    case True
    then show ?thesis using sel cancel by (simp add: loop_body_cancelled)
  next
    case False
    let ?c3 = "c\<lparr>trace := trace c @ [UpdateState (Name ds) (state c)], world := w, hasStopped := False\<rparr>"
    have cb3: "callback_of (state ?c3) = Some cb" using cb by simp
    show ?thesis
    proof (cases "switch_state ds ?c3")
      case (Panicking p c4)
      have "loop_body m sctx ds c = Panicking p c4"
        using sel False Panicking by (simp add: loop_body_timer)
      moreover have "trace c4 = trace c @ [UpdateState (Name ds) (state c), Invoke cb]"
        using switch_state_Panicking[OF Panicking cb3] by simp
      ultimately show ?thesis using panic cb by blast
    next
      case (Normal c4)
      from switch_state_Normal(1)[OF this cb3] obtain lg where lg:
        "trace c4 = trace ?c3 @ Invoke cb # lg" "invokes lg = []" "updates lg = []" by blast
      obtain d where d: "trace (reset_timeout m c4) = trace c4 @ [ResetTimer d]"
        using reset_timeout_facts(1) by blast
      have 1: "loop_body m sctx ds c = Normal (reset_timeout m c4)"
        using sel False Normal by (simp add: loop_body_timer)
      have 2: "trace (reset_timeout m c4) =
          trace c @ UpdateState (Name ds) (state c) # Invoke cb # (lg @ [ResetTimer d])"
        using lg(1) d by simp
      have 3: "invokes (lg @ [ResetTimer d]) = []" "updates (lg @ [ResetTimer d]) = []"
        using lg(2,3) by (simp_all add: invokes_append updates_append)
      have 4: "hasStopped (reset_timeout m c4) = (cb = CbStop)"
        using switch_state_Normal(2)[OF Normal cb3] by (simp add: reset_timeout_facts)
      have 5: "table_step (state c) (state (reset_timeout m c4))"
        using loop_body_next[OF 1 assms] .
      show ?thesis using normal[OF cb 1 2 3 4 5] .
    qed
  qed
qed

lemma last_invoke_snoc_update [simp]:
  "last_invoke (t @ [UpdateState n s]) = last_invoke t"
  by (simp add: last_invoke_def invokes_append)

lemma last_invoke_invoke:
  "invokes lg = [] \<Longrightarrow> last_invoke (t @ e # Invoke cb # lg) = Some cb"
  by (simp add: last_invoke_def invokes_append) (cases e; simp)

lemma loop_inv_init: "loop_inv ds (init_cfg m w)"
  by (simp add: loop_inv_def init_cfg_def last_invoke_def published_def announced_def)

lemma successively_snoc2:
  "successively P (xs @ [a]) \<Longrightarrow> P a b \<Longrightarrow> successively P ((xs @ [a]) @ [b])"
  by (simp add: successively_append_iff)

lemma published_path_step:
  assumes "successively table_step (P @ [s])" and "hd (P @ [s]) = StateInit"
    and "StateExit \<notin> set P" and "s \<noteq> StateExit" and "table_step s s'"
  shows "StateExit \<notin> set (P @ [s])"
    and "successively table_step ((P @ [s]) @ [s'])"
    and "hd ((P @ [s]) @ [s']) = StateInit"
  using assms by (simp_all add: successively_snoc2 del: append_assoc)

lemma loop_inv_step:
  assumes inv: "loop_inv ds c" and ne: "state c \<noteq> StateExit"
    and body: "loop_body m sctx ds c = Normal c'"
  shows "loop_inv ds c'"
  using ne
proof (cases rule: loop_body_cases[where m = m and sctx = sctx and ds = ds])
  case (cancel w)
  with body have c': "c' = c\<lparr>trace := trace c @ [UpdateState (Name ds) (state c)], world := w, state := StateExit\<rparr>"
    by simp
  have t: "table_step (state c) (state c')" using ne by (cases "state c") (auto simp: c')
  have p: "published (trace c') = published (trace c) @ [state c]"
    by (simp add: c' published_def updates_append)
  have a: "announced (Name ds) (trace c')"
    using inv by (simp add: c' loop_inv_def announced_append announced_no_invokes)
  have h: "hasStopped c' = (last_invoke (trace c') = Some CbStop)"
    using inv by (simp add: c' loop_inv_def)
  from inv have i: "successively table_step (published (trace c) @ [state c])"
    "hd (published (trace c) @ [state c]) = StateInit" "StateExit \<notin> set (published (trace c))"
    by (simp_all add: loop_inv_def)
  show ?thesis
    unfolding loop_inv_def p
    using a h published_path_step[OF i ne t] by blast
next
  case (panic cb p c1)
  with body show ?thesis by simp
next
  case (normal cb c1 lg)
  with body have c1: "c1 = c'" by simp
  note n = normal[unfolded c1]
  have "announced (Name ds) (UpdateState (Name ds) (state c) # Invoke cb # lg)"
    using n(1,4) announced_update_invoke[of lg "Name ds" cb] by (simp add: callback_of_state_of)
  then have a: "announced (Name ds) (trace c')"
    using inv by (simp add: n(3) loop_inv_def announced_append)
  have p: "published (trace c') = published (trace c) @ [state c]"
    using n(3,5) by (simp add: published_def updates_append)
  have h: "hasStopped c' = (last_invoke (trace c') = Some CbStop)"
    using n(4,6) by (simp add: n(3) last_invoke_invoke)
  from inv have i: "successively table_step (published (trace c) @ [state c])"
    "hd (published (trace c) @ [state c]) = StateInit" "StateExit \<notin> set (published (trace c))"
    by (simp_all add: loop_inv_def)
  show ?thesis
    unfolding loop_inv_def p
    using a h published_path_step[OF i ne n(7)] by blast
qed

lemma loop_inv_panic:
  assumes inv: "loop_inv ds c" and ne: "state c \<noteq> StateExit"
    and body: "loop_body m sctx ds c = Panicking p c'"
  shows "announced (Name ds) (trace c') \<and>
         published (trace c') = published (trace c) @ [state c] \<and>
         StateExit \<notin> set (published (trace c')) \<and>
         successively table_step (published (trace c')) \<and>
         hd (published (trace c')) = StateInit \<and>
         (\<exists>cb. callback_of (state c) = Some cb \<and>
            trace c' = trace c @ [UpdateState (Name ds) (state c), Invoke cb])"
  using ne
proof (cases rule: loop_body_cases[where m = m and sctx = sctx and ds = ds])
  case (cancel w)
  with body show ?thesis by simp
next
  case (normal cb c1 lg)
  with body show ?thesis by simp
next
  case (panic cb p1 c1)
  with body have c1: "c1 = c'" by simp
  note n = panic[unfolded c1]
  from inv have i: "successively table_step (published (trace c) @ [state c])"
    "hd (published (trace c) @ [state c]) = StateInit" "StateExit \<notin> set (published (trace c))"
    "announced (Name ds) (trace c)"
    by (simp_all add: loop_inv_def)
  have 1: "announced (Name ds) (trace c')"
    using i(4) n(1) announced_update_invoke[of "[]" "Name ds" cb]
    by (simp add: n(3) announced_append callback_of_state_of)
  have p: "published (trace c') = published (trace c) @ [state c]"
    by (simp add: n(3) published_def updates_append)
  have 2: "StateExit \<notin> set (published (trace c'))" using i(3) ne by (simp add: p)
  have 3: "successively table_step (published (trace c'))" using i(1) by (simp add: p)
  have 4: "hd (published (trace c')) = StateInit" using i(2) by (simp add: p)
  show ?thesis using 1 p 2 3 4 n(1,3) by blast
qed

lemma passes_invariant:
  assumes "I c"
    and step: "\<And>c c'. I c \<Longrightarrow> state c \<noteq> StateExit \<Longrightarrow> loop_body m sctx ds c = Normal c' \<Longrightarrow> I c'"
  shows "(\<exists>c'. passes n m sctx ds c = Normal c' \<and> I c') \<or>
         (\<exists>c0 p c'. I c0 \<and> state c0 \<noteq> StateExit \<and> loop_body m sctx ds c0 = Panicking p c' \<and>
            passes n m sctx ds c = Panicking p c')"
  using assms(1)
proof (induction n arbitrary: c)
  case 0
  then show ?case by simp
next
  case (Suc n)
  show ?case
  proof (cases "state c = StateExit")
    case True
    then show ?thesis using Suc.prems by auto
  next
    case False
    show ?thesis
    proof (cases "loop_body m sctx ds c")
      case (Normal c1)
      have "I c1" using step[OF Suc.prems False Normal] .
      from Suc.IH[OF this] show ?thesis using False Normal by simp
    next
      case (Panicking p c1)
      with False Suc.prems show ?thesis by auto
    qed
  qed
qed

lemma Manage_loop_passes:
  "Manage_loop fuel m sctx ds c = Some r \<Longrightarrow> passes fuel m sctx ds c = r"
  by (induction fuel arbitrary: c) (auto split: if_splits exit.splits)

text \<open>
  The loop has ended within \<open>n\<close> passes exactly when the run after \<open>n\<close> passes is
  in the state Exit or has panicked; the result is then that run.
\<close>

lemma Manage_loop_ends:
  "Manage_loop n m sctx ds c =
     (case passes n m sctx ds c of
        Normal c' \<Rightarrow> if state c' = StateExit then Some (Normal c') else None
      | Panicking p c' \<Rightarrow> Some (Panicking p c'))"
proof (induction n arbitrary: c)
  case 0
  then show ?case by simp
next
  case (Suc n)
  show ?case
  proof (cases "state c = StateExit")
    case True
    then show ?thesis by simp
  next
    case False
    then show ?thesis
      by (cases "loop_body m sctx ds c") (simp_all add: Suc.IH)
  qed
qed

lemma passes_path:
  "successively table_step (published (trace (cfg_of (passes n m sctx ds (init_cfg m w))))) \<and>
   announced (Name ds) (trace (cfg_of (passes n m sctx ds (init_cfg m w)))) \<and>
   StateExit \<notin> set (published (trace (cfg_of (passes n m sctx ds (init_cfg m w))))) \<and>
   (case passes n m sctx ds (init_cfg m w) of
      Normal c \<Rightarrow> successively table_step (published (trace c) @ [state c]) \<and>
                  hd (published (trace c) @ [state c]) = StateInit
    | Panicking p c \<Rightarrow> hd (published (trace c)) = StateInit)"
  using passes_invariant[of "loop_inv ds" "init_cfg m w" m sctx ds n, OF loop_inv_init loop_inv_step]
proof
  assume "\<exists>c'. passes n m sctx ds (init_cfg m w) = Normal c' \<and> loop_inv ds c'"
  then obtain c' where c: "passes n m sctx ds (init_cfg m w) = Normal c'" "loop_inv ds c'" by blast
  from c(2) have "successively table_step (published (trace c') @ [state c'])" 
    by (simp add: loop_inv_def)
  then have "successively table_step (published (trace c'))"
    by (simp add: successively_append_iff)
  with c show ?thesis by (simp add: loop_inv_def)
next
  assume "\<exists>c0 p c'. loop_inv ds c0 \<and> state c0 \<noteq> StateExit \<and>
     loop_body m sctx ds c0 = Panicking p c' \<and> passes n m sctx ds (init_cfg m w) = Panicking p c'"
  then obtain c0 p c' where c0: "loop_inv ds c0" "state c0 \<noteq> StateExit"
    "loop_body m sctx ds c0 = Panicking p c'" "passes n m sctx ds (init_cfg m w) = Panicking p c'"
    by blast
  from loop_inv_panic[OF c0(1,2,3)]
  have "successively table_step (published (trace c'))" "hd (published (trace c')) = StateInit"
    "announced (Name ds) (trace c')" "StateExit \<notin> set (published (trace c'))"
    by blast+
  then show ?thesis by (simp add: c0(4))
qed

lemma Manage_loop_result:
  assumes "Manage_loop fuel m sctx ds (init_cfg m w) = Some r"
  shows "(\<exists>c'. r = Normal c' \<and> loop_inv ds c' \<and> state c' = StateExit) \<or>
         (\<exists>c0 p c'. loop_inv ds c0 \<and> state c0 \<noteq> StateExit \<and>
            loop_body m sctx ds c0 = Panicking p c' \<and> r = Panicking p c')"
  by (rule Manage_loop_invariant[OF assms, of "loop_inv ds"])
     (auto intro: loop_inv_init loop_inv_step)

lemma final_stop_Normal:
  assumes "final_stop ds c = Normal c'"
  shows "\<exists>tail. trace c' = trace c @ tail \<and> updates tail = [] \<and>
           invokes tail = (if hasStopped c then [] else [CbStop])"
  using assms
  by (auto simp: final_stop_def log_error_facts split: if_splits prod.splits outcome.splits
        dest!: invoke_facts(1))

lemma final_stop_Panicking:
  assumes "final_stop ds c = Panicking p c'"
  shows "\<not> hasStopped c \<and> trace c' = trace c @ [Invoke CbStop]"
  using assms
  by (auto simp: final_stop_def split: if_splits prod.splits outcome.splits
        dest!: invoke_facts(1))

lemma next_state_timer:
  assumes "select_Done sctx (world c) = (False, w)"
  shows "next_state (loop_body m sctx ds c) =
     next_state (switch_state ds
        (c\<lparr>trace := trace c @ [UpdateState (Name ds) (state c)], world := w, hasStopped := False\<rparr>))"
  using assms by (simp add: loop_body_timer reset_timeout_facts split: exit.splits)

lemma table_rows:
  assumes "select_Done sctx (world c) = (False, w)"
  shows "state c = StateInit \<Longrightarrow> Init (Runner ds) w = (NoError, w') \<Longrightarrow>
           next_state (loop_body m sctx ds c) = Some StateIdle"
    and "state c = StateInit \<Longrightarrow> Init (Runner ds) w = (Err e, w') \<Longrightarrow>
           next_state (loop_body m sctx ds c) = Some StateStop"
    and "state c = StateIdle \<Longrightarrow> Idle (Runner ds) w = (NoError, w') \<Longrightarrow>
           next_state (loop_body m sctx ds c) = Some StateRun"
    and "state c = StateIdle \<Longrightarrow> Idle (Runner ds) w = (Err e, w') \<Longrightarrow>
           next_state (loop_body m sctx ds c) = Some StateStop"
    and "state c = StateRun \<Longrightarrow> Run (Runner ds) w = (r, w') \<Longrightarrow> \<forall>p. r \<noteq> Panics p \<Longrightarrow>
           next_state (loop_body m sctx ds c) = Some StateStop"
    and "state c = StateStop \<Longrightarrow> Stop (Runner ds) w = (r, w') \<Longrightarrow> \<forall>p. r \<noteq> Panics p \<Longrightarrow>
           next_state (loop_body m sctx ds c) = Some StateInit"
  by (cases r; simp add: next_state_timer[OF assms] switch_state_def invoke_def emit_def log_error_def)+


lemma published_emit_update:
  "published (trace (emit (UpdateState n s) c)) = published (trace c) @ [s]"
  by (simp add: emit_def published_def updates_append)

lemma published_deferred:
  "published (trace (cfg_of (deferred y))) = published (trace (cfg_of y))"
  by (cases y) (simp_all add: deferred_def emit_def published_def updates_append)

lemma Manage_published_path:
  assumes "Manage fuel m sctx ds w0 = Some x"
  shows "successively table_step (published (trace (cfg_of x))) \<and>
         hd (published (trace (cfg_of x))) = StateInit"
proof -
  from assms obtain y where y: "Manage_body fuel m sctx ds w0 = Some y" and x: "x = deferred y"
    by (auto simp: Manage_def)
  have pubx: "published (trace (cfg_of x)) = published (trace (cfg_of y))"
    by (simp add: x published_deferred)
  from y obtain r where r: "Manage_loop fuel m sctx ds (init_cfg m w0) = Some r"
    by (auto simp: Manage_body_def split: option.splits)
  from Manage_loop_result[OF r] show ?thesis
  proof
    assume "\<exists>c'. r = Normal c' \<and> loop_inv ds c' \<and> state c' = StateExit"
    then obtain cl where cl: "r = Normal cl" "loop_inv ds cl" "state cl = StateExit" by blast
    from cl(2,3) have path: "successively table_step (published (trace cl) @ [StateExit])"
      and h: "hd (published (trace cl) @ [StateExit]) = StateInit"
      by (simp_all add: loop_inv_def)
    from h have ne: "published (trace cl) \<noteq> []" by (cases "published (trace cl)") auto
    show ?thesis
    proof (cases "final_stop ds cl")
      case (Normal c2)
      from final_stop_Normal[OF Normal] obtain tail where
        "trace c2 = trace cl @ tail" "updates tail = []" by blast
      then have "published (trace c2) = published (trace cl)"
        by (simp add: published_def updates_append)
      moreover have "y = Normal (emit (UpdateState (Name ds) StateExit) c2)"
        using y r cl(1) Normal by (simp add: Manage_body_def)
      ultimately have "published (trace (cfg_of y)) = published (trace cl) @ [StateExit]"
        by (simp add: published_emit_update)
      then show ?thesis using path h by (simp add: pubx)
    next
      case (Panicking p c2)
      from final_stop_Panicking[OF Panicking] have "published (trace c2) = published (trace cl)"
        by (simp add: published_def updates_append)
      moreover have "y = Panicking p c2"
        using y r cl(1) Panicking by (simp add: Manage_body_def)
      ultimately have "published (trace (cfg_of y)) = published (trace cl)" by simp
      then show ?thesis
        using path h ne by (simp add: pubx successively_append_iff)
    qed
  next
    assume "\<exists>c0 p c'. loop_inv ds c0 \<and> state c0 \<noteq> StateExit \<and>
       loop_body m sctx ds c0 = Panicking p c' \<and> r = Panicking p c'"
    then obtain c0 p c' where c0: "loop_inv ds c0" "state c0 \<noteq> StateExit"
      "loop_body m sctx ds c0 = Panicking p c'" "r = Panicking p c'" by blast
    have yp: "y = Panicking p c'" using y r c0(4) by (simp add: Manage_body_def)
    from loop_inv_panic[OF c0(1,2,3)]
    have "successively table_step (published (trace c'))" "hd (published (trace c')) = StateInit"
      by blast+
    then show ?thesis by (simp add: pubx yp)
  qed
qed

lemma invoke_Options: "invoke cb (ds\<lparr>Options := opts\<rparr>) c = invoke cb ds c"
  by (simp add: invoke_def)

lemma switch_state_Options: "switch_state (ds\<lparr>Options := opts\<rparr>) c = switch_state ds c"
  unfolding switch_state_def invoke_Options ..

lemma final_stop_Options: "final_stop (ds\<lparr>Options := opts\<rparr>) c = final_stop ds c"
  unfolding final_stop_def invoke_Options ..

lemma loop_body_Options:
  "loop_body m sctx (ds\<lparr>Options := opts\<rparr>) c = loop_body m sctx ds c"
  unfolding loop_body_def switch_state_Options by simp

lemma Manage_loop_Options:
  "Manage_loop fuel m sctx (ds\<lparr>Options := opts\<rparr>) c = Manage_loop fuel m sctx ds c"
  by (induction fuel arbitrary: c) (simp_all add: loop_body_Options cong: exit.case_cong)

lemma Manage_Options:
  "Manage fuel m sctx (ds\<lparr>Options := opts\<rparr>) w = Manage fuel m sctx ds w"
  by (simp add: Manage_def Manage_body_def Manage_loop_Options final_stop_Options
        cong: option.case_cong exit.case_cong)

lemma switch_state_not_Exit:
  assumes "state c \<noteq> StateExit"
  shows "next_state (switch_state ds c) \<noteq> Some StateExit"
  using assms
  by (cases "state c")
     (auto simp: switch_state_def log_error_facts split: prod.splits outcome.splits
        dest: invoke_facts(3))

lemma Exit_only_when_cancelled:
  assumes "state c \<noteq> StateExit" and "next_state (loop_body m sctx ds c) = Some StateExit"
  shows "\<exists>w. select_Done sctx (world c) = (True, w)"
proof -
  obtain b w where sel: "select_Done sctx (world c) = (b, w)"
    by (cases "select_Done sctx (world c)")
  show ?thesis
  proof (cases b)
    case True
    with sel show ?thesis by auto
  next
    case False
    let ?c3 = "c\<lparr>trace := trace c @ [UpdateState (Name ds) (state c)], world := w, hasStopped := False\<rparr>"
    have "next_state (switch_state ds ?c3) \<noteq> Some StateExit"
      using assms(1) by (intro switch_state_not_Exit) simp
    then show ?thesis using assms(2) sel False by (simp add: next_state_timer)
  qed
qed

text \<open>How the body of \<^verbatim>\<open>Manage\<close> ends, and what it has done by then.\<close>

lemma Manage_body_Normal:
  assumes "Manage_body fuel m sctx ds w = Some (Normal c)"
  shows "\<exists>cl tail. Manage_loop fuel m sctx ds (init_cfg m w) = Some (Normal cl) \<and>
           state cl = StateExit \<and>
           announced (Name ds) (trace cl) \<and>
           StateExit \<notin> set (published (trace cl)) \<and>
           trace c = trace cl @ tail @ [UpdateState (Name ds) StateExit] \<and>
           updates tail = [] \<and>
           invokes tail = (if last_invoke (trace cl) = Some CbStop then [] else [CbStop])"
proof -
  from assms obtain r where r: "Manage_loop fuel m sctx ds (init_cfg m w) = Some r"
    by (auto simp: Manage_body_def split: option.splits)
  from assms r obtain cl where cl: "r = Normal cl"
    by (cases r) (auto simp: Manage_body_def)
  from Manage_loop_result[OF r] cl have inv: "loop_inv ds cl" and ex: "state cl = StateExit"
    by auto
  from assms r cl obtain c2 where c2: "final_stop ds cl = Normal c2"
    and c: "c = emit (UpdateState (Name ds) StateExit) c2"
    by (cases "final_stop ds cl") (auto simp: Manage_body_def)
  from final_stop_Normal[OF c2] obtain tail where tail: "trace c2 = trace cl @ tail"
    "updates tail = []" "invokes tail = (if hasStopped cl then [] else [CbStop])" by blast
  have "trace c = trace cl @ tail @ [UpdateState (Name ds) StateExit]"
    by (simp add: c emit_def tail(1))
  moreover have "hasStopped cl = (last_invoke (trace cl) = Some CbStop)"
    using inv by (simp add: loop_inv_def)
  ultimately show ?thesis
    using r cl ex inv tail(2,3) by (auto simp: loop_inv_def)
qed

lemma Manage_body_Panicking:
  assumes "Manage_body fuel m sctx ds w = Some (Panicking p c)"
  shows "\<exists>t cb. trace c = t @ [Invoke cb] \<and> StateExit \<notin> set (published (trace c))"
proof -
  from assms obtain r where r: "Manage_loop fuel m sctx ds (init_cfg m w) = Some r"
    by (auto simp: Manage_body_def split: option.splits)
  from Manage_loop_result[OF r] show ?thesis
  proof
    assume "\<exists>c'. r = Normal c' \<and> loop_inv ds c' \<and> state c' = StateExit"
    then obtain cl where cl: "r = Normal cl" "loop_inv ds cl" by blast
    from assms r cl(1) have fs: "final_stop ds cl = Panicking p c"
      by (cases "final_stop ds cl") (auto simp: Manage_body_def)
    from final_stop_Panicking[OF fs] have t: "trace c = trace cl @ [Invoke CbStop]" by simp
    moreover have "StateExit \<notin> set (published (trace cl))" using cl(2) by (simp add: loop_inv_def)
    ultimately show ?thesis by (simp add: published_def updates_append)
  next
    assume "\<exists>c0 p c'. loop_inv ds c0 \<and> state c0 \<noteq> StateExit \<and>
       loop_body m sctx ds c0 = Panicking p c' \<and> r = Panicking p c'"
    then obtain c0 p' c' where c0: "loop_inv ds c0" "state c0 \<noteq> StateExit"
      "loop_body m sctx ds c0 = Panicking p' c'" "r = Panicking p' c'" by blast
    from assms r c0(4) have "c' = c" by (simp add: Manage_body_def)
    with loop_inv_panic[OF c0(1,2,3)] show ?thesis by auto
  qed
qed

lemma Manage_loop_announced:
  assumes "Manage_loop fuel m sctx ds (init_cfg m w) = Some r"
  shows "announced (Name ds) (trace (cfg_of r)) \<and> StateExit \<notin> set (published (trace (cfg_of r)))"
  using Manage_loop_result[OF assms]
proof
  assume "\<exists>c'. r = Normal c' \<and> loop_inv ds c' \<and> state c' = StateExit"
  then show ?thesis by (auto simp: loop_inv_def)
next
  assume "\<exists>c0 p c'. loop_inv ds c0 \<and> state c0 \<noteq> StateExit \<and>
     loop_body m sctx ds c0 = Panicking p c' \<and> r = Panicking p c'"
  then obtain c0 p c' where c0: "loop_inv ds c0" "state c0 \<noteq> StateExit"
    "loop_body m sctx ds c0 = Panicking p c'" "r = Panicking p c'" by blast
  from loop_inv_panic[OF c0(1,2,3)]
  have "announced (Name ds) (trace c')" "StateExit \<notin> set (published (trace c'))" by blast+
  then show ?thesis by (simp add: c0(4))
qed

lemma Manage_body_terminates:
  assumes "Manage_loop fuel m sctx ds (init_cfg m w) = Some r"
  shows "\<exists>y. Manage_body fuel m sctx ds w = Some y"
  using assms by (auto simp: Manage_body_def split: exit.splits)

lemmas run_defs = Manage_def Manage_body_def init_cfg_def NewDefaultManager_def cancel_after_def
  cancelled_timer_first_def select_Done_def
  svc_def fixed_runner_def loop_body_def switch_state_def invoke_def emit_def log_error_def
  reset_timeout_def final_stop_def deferred_def at_state_def


section \<open>The claims about the manager\<close>

text \<open>
  Claim C1. In every run of \<^verbatim>\<open>Manage\<close> with the context not cancelled the variable
  \<^verbatim>\<open>state\<close> follows the transition table, and when the context is cancelled the next
  state is Exit from any state. One pass of the loop from a configuration \<open>c\<close>, when
  the \<^verbatim>\<open>select\<close> takes the timer case: from Init the next state is Idle when \<^verbatim>\<open>Init\<close>
  returns no error and Stop when it returns an error; from Idle it is Run on no error
  and Stop on an error; from Run it is Stop whatever \<^verbatim>\<open>Run\<close> returns; from Stop it is
  Init whatever \<^verbatim>\<open>Stop\<close> returns. The timer case is the one taken when the context is
  not cancelled, so this much of the claim holds. With the context cancelled the next
  state is Exit when the timer has not fired or the runtime picks the \<^verbatim>\<open>Done\<close> case.
  But the \<^verbatim>\<open>select\<close> gives the \<^verbatim>\<open>Done\<close> case no priority: with the context cancelled
  and the timer fired the runtime may take the timer case, and then the pass calls the
  callback of the current state and the next state is the one the rows above give,
  never Exit. A run is a sequence of such passes, and the states a run reports, in
  order, start with Init and go from each state to one the table allows: this holds
  of the run that has returned and of the run after any number of passes, so of the
  runs that never end as well.
\<close>

theorem Manage_transition_table:
  "(\<not> Done_closed sctx (world c) \<or>
      timer_fired sctx (world c) \<and> \<not> picks_Done sctx (world c) \<longrightarrow>
      (state c = StateInit \<and> Init (Runner ds) (after_select sctx (world c)) = (NoError, w') \<longrightarrow>
         next_state (loop_body m sctx ds c) = Some StateIdle) \<and>
      (state c = StateInit \<and> Init (Runner ds) (after_select sctx (world c)) = (Err e, w') \<longrightarrow>
         next_state (loop_body m sctx ds c) = Some StateStop) \<and>
      (state c = StateIdle \<and> Idle (Runner ds) (after_select sctx (world c)) = (NoError, w') \<longrightarrow>
         next_state (loop_body m sctx ds c) = Some StateRun) \<and>
      (state c = StateIdle \<and> Idle (Runner ds) (after_select sctx (world c)) = (Err e, w') \<longrightarrow>
         next_state (loop_body m sctx ds c) = Some StateStop) \<and>
      (state c = StateRun \<and> Run (Runner ds) (after_select sctx (world c)) = (r, w') \<and>
         (\<forall>p. r \<noteq> Panics p) \<longrightarrow>
         next_state (loop_body m sctx ds c) = Some StateStop) \<and>
      (state c = StateStop \<and> Stop (Runner ds) (after_select sctx (world c)) = (r, w') \<and>
         (\<forall>p. r \<noteq> Panics p) \<longrightarrow>
         next_state (loop_body m sctx ds c) = Some StateInit)) \<and>
   (Done_closed sctx (world c) \<and>
      (\<not> timer_fired sctx (world c) \<or> picks_Done sctx (world c)) \<longrightarrow>
      next_state (loop_body m sctx ds c) = Some StateExit) \<and>
   (Done_closed sctx (world c) \<and> timer_fired sctx (world c) \<and> \<not> picks_Done sctx (world c) \<and>
      state c \<noteq> StateExit \<longrightarrow>
      next_state (loop_body m sctx ds c) \<noteq> Some StateExit) \<and>
   (Manage fuel m sctx ds w0 = Some x \<longrightarrow>
      successively table_step (published (trace (cfg_of x))) \<and>
      hd (published (trace (cfg_of x))) = StateInit) \<and>
   successively table_step (published (trace (cfg_of (passes n m sctx ds (init_cfg m w0))))) \<and>
   (published (trace (cfg_of (passes n m sctx ds (init_cfg m w0)))) \<noteq> [] \<longrightarrow>
      hd (published (trace (cfg_of (passes n m sctx ds (init_cfg m w0))))) = StateInit)"
proof (intro conjI impI)
  show "successively table_step (published (trace (cfg_of (passes n m sctx ds (init_cfg m w0)))))"
    using passes_path[of n m sctx ds w0] by blast
next
  assume "published (trace (cfg_of (passes n m sctx ds (init_cfg m w0)))) \<noteq> []"
  then show "hd (published (trace (cfg_of (passes n m sctx ds (init_cfg m w0))))) = StateInit"
    using passes_path[of n m sctx ds w0]
    by (cases "passes n m sctx ds (init_cfg m w0)") auto
next
  assume "Done_closed sctx (world c) \<and>
    (\<not> timer_fired sctx (world c) \<or> picks_Done sctx (world c))"
  then have "select_Done sctx (world c) = (True, after_select sctx (world c))"
    by (rule select_Done_cancelled)
  then show "next_state (loop_body m sctx ds c) = Some StateExit"
    by (simp add: loop_body_cancelled)
next
  assume "Done_closed sctx (world c) \<and> timer_fired sctx (world c) \<and>
    \<not> picks_Done sctx (world c) \<and> state c \<noteq> StateExit"
  then have sel: "select_Done sctx (world c) = (False, after_select sctx (world c))"
    and st: "state c \<noteq> StateExit"
    by (simp_all add: select_Done_timer)
  let ?c3 = "c\<lparr>trace := trace c @ [UpdateState (Name ds) (state c)],
    world := after_select sctx (world c), hasStopped := False\<rparr>"
  have "next_state (switch_state ds ?c3) \<noteq> Some StateExit"
    using st by (intro switch_state_not_Exit) simp
  then show "next_state (loop_body m sctx ds c) \<noteq> Some StateExit"
    using sel by (simp add: next_state_timer)
next
  assume "Manage fuel m sctx ds w0 = Some x"
  then show "successively table_step (published (trace (cfg_of x)))"
    by (rule conjunct1[OF Manage_published_path])
next
  assume "Manage fuel m sctx ds w0 = Some x"
  then show "hd (published (trace (cfg_of x))) = StateInit"
    by (rule conjunct2[OF Manage_published_path])
qed ((elim conjE)?, (rule table_rows[OF select_Done_timer]; assumption))+

theorem Manage_transition_table_witness:
  "\<not> Done_closed (cancel_after 9) (world (at_state StateInit)) \<and>
   next_state (loop_body (NewDefaultManager []) (cancel_after 9)
      (svc (fixed_runner NoError NoError NoError NoError) RunUntilStoppedPolicy) (at_state StateInit))
     = Some StateIdle \<and>
   next_state (loop_body (NewDefaultManager []) (cancel_after 9)
      (svc (fixed_runner (Err ''no'') NoError NoError NoError) RunUntilStoppedPolicy) (at_state StateInit))
     = Some StateStop \<and>
   next_state (loop_body (NewDefaultManager []) (cancel_after 9)
      (svc (fixed_runner NoError NoError NoError NoError) RunUntilStoppedPolicy) (at_state StateIdle))
     = Some StateRun \<and>
   next_state (loop_body (NewDefaultManager []) (cancel_after 9)
      (svc (fixed_runner NoError (Err ''no'') NoError NoError) RunUntilStoppedPolicy) (at_state StateIdle))
     = Some StateStop \<and>
   next_state (loop_body (NewDefaultManager []) (cancel_after 9)
      (svc (fixed_runner NoError NoError (Err ''no'') NoError) RunUntilStoppedPolicy) (at_state StateRun))
     = Some StateStop \<and>
   next_state (loop_body (NewDefaultManager []) (cancel_after 9)
      (svc (fixed_runner NoError NoError NoError (Err ''no'')) RunUntilStoppedPolicy) (at_state StateStop))
     = Some StateInit \<and>
   Done_closed (cancel_after 0) (world (at_state StateRun)) \<and>
   \<not> timer_fired (cancel_after 0) (world (at_state StateRun)) \<and>
   next_state (loop_body (NewDefaultManager []) (cancel_after 0)
      (svc (fixed_runner NoError NoError NoError NoError) RunUntilStoppedPolicy) (at_state StateRun))
     = Some StateExit \<and>
   Done_closed (cancelled_timer_first 2) (world (at_state StateInit)) \<and>
   timer_fired (cancelled_timer_first 2) (world (at_state StateInit)) \<and>
   \<not> picks_Done (cancelled_timer_first 2) (world (at_state StateInit)) \<and>
   next_state (loop_body (NewDefaultManager []) (cancelled_timer_first 2)
      (svc (fixed_runner NoError NoError NoError NoError) RunUntilStoppedPolicy) (at_state StateInit))
     = Some StateIdle \<and>
   Some StateIdle \<noteq> Some StateExit \<and>
   map_option (published \<circ> trace \<circ> cfg_of)
     (Manage 3 (NewDefaultManager []) (cancelled_timer_first 2)
        (svc (fixed_runner NoError NoError NoError NoError) RunUntilStoppedPolicy) 0)
     = Some [StateInit, StateIdle, StateRun, StateExit] \<and>
   map_option (invokes \<circ> trace \<circ> cfg_of)
     (Manage 3 (NewDefaultManager []) (cancelled_timer_first 2)
        (svc (fixed_runner NoError NoError NoError NoError) RunUntilStoppedPolicy) 0)
     = Some [CbInit, CbIdle, CbStop] \<and>
   map_option (published \<circ> trace \<circ> cfg_of)
     (Manage 3 (NewDefaultManager []) (cancel_after 2)
        (svc (fixed_runner NoError NoError NoError NoError) RunUntilStoppedPolicy) 0)
     = Some [StateInit, StateIdle, StateRun, StateExit] \<and>
   successively table_step [StateInit, StateIdle, StateRun, StateExit] \<and>
   published (trace (cfg_of (passes 2 (NewDefaultManager []) (cancel_after 2)
      (svc (fixed_runner NoError NoError NoError NoError) RunUntilStoppedPolicy)
      (init_cfg (NewDefaultManager []) 0))))
     = [StateInit, StateIdle]"
proof -
  note row = Manage_transition_table[where m = "NewDefaultManager []" and w' = 1
      and e = "''no''" and r = "Err ''no''" and fuel = 0 and ?w0.0 = 0 and n = 0
      and x = "Normal (at_state StateExit)"]
  note run = Manage_transition_table[where m = "NewDefaultManager []" and w' = 1
      and e = "''no''" and r = "Err ''no''" and fuel = 3 and ?w0.0 = 0 and n = 2
      and sctx = "cancel_after 2" and c = "at_state StateExit"
      and ds = "svc (fixed_runner NoError NoError NoError NoError) RunUntilStoppedPolicy"
      and x = "Normal \<lparr>state = StateExit, hasStopped = False, world = 3,
        trace = [NewTimer 10, UpdateState ''S1'' StateInit, Invoke CbInit,
          ResetTimer 0, UpdateState ''S1'' StateIdle, Invoke CbIdle,
          ResetTimer 0, UpdateState ''S1'' StateRun, Invoke CbStop,
          UpdateState ''S1'' StateExit, StopTimer]\<rparr>"]
  show ?thesis
    using
      row[where sctx = "cancel_after 0" and c = "at_state StateRun"
        and ds = "svc (fixed_runner NoError NoError NoError NoError) RunUntilStoppedPolicy"]
      row[where sctx = "cancel_after 9" and c = "at_state StateInit"
        and ds = "svc (fixed_runner NoError NoError NoError NoError) RunUntilStoppedPolicy"]
      row[where sctx = "cancel_after 9" and c = "at_state StateInit"
        and ds = "svc (fixed_runner (Err ''no'') NoError NoError NoError) RunUntilStoppedPolicy"]
      row[where sctx = "cancel_after 9" and c = "at_state StateIdle"
        and ds = "svc (fixed_runner NoError NoError NoError NoError) RunUntilStoppedPolicy"]
      row[where sctx = "cancel_after 9" and c = "at_state StateIdle"
        and ds = "svc (fixed_runner NoError (Err ''no'') NoError NoError) RunUntilStoppedPolicy"]
      row[where sctx = "cancel_after 9" and c = "at_state StateRun"
        and ds = "svc (fixed_runner NoError NoError (Err ''no'') NoError) RunUntilStoppedPolicy"]
      row[where sctx = "cancel_after 9" and c = "at_state StateStop"
        and ds = "svc (fixed_runner NoError NoError NoError (Err ''no'')) RunUntilStoppedPolicy"]
      row[where sctx = "cancelled_timer_first 2" and c = "at_state StateInit"
        and ds = "svc (fixed_runner NoError NoError NoError NoError) RunUntilStoppedPolicy"]
      run
    by (simp add: run_defs published_def eval_nat_numeral)
qed

text \<open>
  The claim C4 as it was stated fails: under the policy RunOnceIfSuccess, with every
  callback returning no error, the pass that runs \<^verbatim>\<open>Stop\<close> leaves the state
  at Init, and the run of seven waits reports Init again after Stop and calls
  \<^verbatim>\<open>Init\<close> again; it ends only because the context is cancelled at the seventh wait.
\<close>

theorem RunOnceIfSuccess_counterexample:
  "RunPolicy (Options (svc (fixed_runner NoError NoError NoError NoError) RunOnceIfSuccessPolicy))
     = RunOnceIfSuccessPolicy \<and>
   Run (Runner (svc (fixed_runner NoError NoError NoError NoError) RunOnceIfSuccessPolicy)) (0::nat)
     = (NoError, 0) \<and>
   Stop (Runner (svc (fixed_runner NoError NoError NoError NoError) RunOnceIfSuccessPolicy)) (1::nat)
     = (NoError, 1) \<and>
   next_state (loop_body (NewDefaultManager []) (cancel_after 9)
      (svc (fixed_runner NoError NoError NoError NoError) RunOnceIfSuccessPolicy) (at_state StateStop))
     = Some StateInit \<and>
   map_option (published \<circ> trace \<circ> cfg_of)
     (Manage 7 (NewDefaultManager []) (cancel_after 6)
        (svc (fixed_runner NoError NoError NoError NoError) RunOnceIfSuccessPolicy) 0)
     = Some [StateInit, StateIdle, StateRun, StateStop, StateInit, StateIdle, StateRun, StateExit] \<and>
   map_option (invokes \<circ> trace \<circ> cfg_of)
     (Manage 7 (NewDefaultManager []) (cancel_after 6)
        (svc (fixed_runner NoError NoError NoError NoError) RunOnceIfSuccessPolicy) 0)
     = Some [CbInit, CbIdle, CbRun, CbStop, CbInit, CbIdle, CbStop]"
  by (simp add: run_defs published_def eval_nat_numeral)

text \<open>
  Claim C4, as the code has it. \<^verbatim>\<open>Manage\<close> never reads the run policy of the service:
  a run is the same whatever the policy. With RunOnceIfSuccess as with any other
  policy, the state after Run is Stop and the state after Stop is Init, whether the
  callback returned an error or not, so the manager loops again; and a pass ends in
  Exit only when the \<^verbatim>\<open>select\<close> took the \<^verbatim>\<open>Done\<close> case, that is, when the context
  was cancelled.
\<close>

theorem Manage_ignores_RunPolicy:
  "Manage fuel m sctx (ds\<lparr>Options := opts\<rparr>) w0 = Manage fuel m sctx ds w0 \<and>
   (state c = StateRun \<and> select_Done sctx (world c) = (False, w) \<and>
      Run (Runner ds) w = (r, w') \<and> (\<forall>p. r \<noteq> Panics p) \<longrightarrow>
        next_state (loop_body m sctx ds c) = Some StateStop) \<and>
   (state c = StateStop \<and> select_Done sctx (world c) = (False, w) \<and>
      Stop (Runner ds) w = (r, w') \<and> (\<forall>p. r \<noteq> Panics p) \<longrightarrow>
        next_state (loop_body m sctx ds c) = Some StateInit) \<and>
   (state c \<noteq> StateExit \<and> next_state (loop_body m sctx ds c) = Some StateExit \<longrightarrow>
      (\<exists>w1. select_Done sctx (world c) = (True, w1)) \<and> Done_closed sctx (world c))"
proof (intro conjI impI)
  show "Manage fuel m sctx (ds\<lparr>Options := opts\<rparr>) w0 = Manage fuel m sctx ds w0"
    by (rule Manage_Options)
next
  assume "state c \<noteq> StateExit \<and> next_state (loop_body m sctx ds c) = Some StateExit"
  then show "\<exists>w1. select_Done sctx (world c) = (True, w1)"
    using Exit_only_when_cancelled by blast
next
  assume "state c \<noteq> StateExit \<and> next_state (loop_body m sctx ds c) = Some StateExit"
  then obtain w1 where "select_Done sctx (world c) = (True, w1)"
    using Exit_only_when_cancelled by blast
  then show "Done_closed sctx (world c)"
    by (rule select_Done_True(1))
qed ((elim conjE)?, (rule table_rows; assumption))+

theorem Manage_ignores_RunPolicy_witness:
  "Manage 7 (NewDefaultManager []) (cancel_after 6)
      ((svc (fixed_runner NoError NoError NoError NoError) RunUntilStoppedPolicy)
         \<lparr>Options := \<lparr>RunPolicy = RunOnceIfSuccessPolicy\<rparr>\<rparr>) 0
     = Manage 7 (NewDefaultManager []) (cancel_after 6)
         (svc (fixed_runner NoError NoError NoError NoError) RunUntilStoppedPolicy) 0 \<and>
   next_state (loop_body (NewDefaultManager []) (cancel_after 9)
      (svc (fixed_runner NoError NoError NoError NoError) RunOnceIfSuccessPolicy) (at_state StateRun))
     = Some StateStop \<and>
   next_state (loop_body (NewDefaultManager []) (cancel_after 9)
      (svc (fixed_runner NoError NoError NoError (Err ''no'')) RunOnceIfSuccessPolicy) (at_state StateStop))
     = Some StateInit \<and>
   next_state (loop_body (NewDefaultManager []) (cancel_after 0)
      (svc (fixed_runner NoError NoError NoError NoError) RunOnceIfSuccessPolicy) (at_state StateStop))
     = Some StateExit \<and>
   select_Done (cancel_after 0) (world (at_state StateStop)) = (True, 1) \<and>
   Done_closed (cancel_after 0) (world (at_state StateStop))"
proof -
  note T = Manage_ignores_RunPolicy[where m = "NewDefaultManager []" and fuel = 7 and ?w0.0 = 0
      and w = 1 and w' = 1]
  show ?thesis
    using
      T[where sctx = "cancel_after 6" and opts = "\<lparr>RunPolicy = RunOnceIfSuccessPolicy\<rparr>"
        and ds = "svc (fixed_runner NoError NoError NoError NoError) RunUntilStoppedPolicy"
        and c = "at_state StateExit" and r = NoError]
      T[where sctx = "cancel_after 9" and opts = "\<lparr>RunPolicy = RunOnceIfSuccessPolicy\<rparr>"
        and ds = "svc (fixed_runner NoError NoError NoError NoError) RunOnceIfSuccessPolicy"
        and c = "at_state StateRun" and r = NoError]
      T[where sctx = "cancel_after 9" and opts = "\<lparr>RunPolicy = RunOnceIfSuccessPolicy\<rparr>"
        and ds = "svc (fixed_runner NoError NoError NoError (Err ''no'')) RunOnceIfSuccessPolicy"
        and c = "at_state StateStop" and r = "Err ''no''"]
      T[where sctx = "cancel_after 0" and opts = "\<lparr>RunPolicy = RunOnceIfSuccessPolicy\<rparr>"
        and ds = "svc (fixed_runner NoError NoError NoError NoError) RunOnceIfSuccessPolicy"
        and c = "at_state StateStop" and r = NoError]
    by (simp add: run_defs eval_nat_numeral)
qed

text \<open>
  Claim C2: in every run of \<^verbatim>\<open>Manage\<close> that terminates, \<^verbatim>\<open>Stop\<close> is called once
  after the loop unless it was the last callback the loop called, and
  \<^verbatim>\<open>updateState(name, StateExit)\<close> is called exactly once, as the last call of
  \<^verbatim>\<open>updateState\<close>. The code does this in the runs whose body returns: the events are
  those of the loop, which never reports Exit, then the cleanup (one call of \<^verbatim>\<open>Stop\<close>
  unless the loop's last call was \<^verbatim>\<open>Stop\<close>, and no report), then the report of
  Exit. It does not in the runs where a callback panics: these terminate too, with the
  panicking call as the last event of the body and Exit never reported.
\<close>

theorem Manage_exit_reports:
  assumes "Manage_body fuel m sctx ds w = Some y"
  shows "(case y of
            Normal c \<Rightarrow>
              (\<exists>cl tail. Manage_loop fuel m sctx ds (init_cfg m w) = Some (Normal cl) \<and>
                 trace c = trace cl @ tail @ [UpdateState (Name ds) StateExit] \<and>
                 StateExit \<notin> set (published (trace cl)) \<and>
                 updates tail = [] \<and>
                 invokes tail = (if last_invoke (trace cl) = Some CbStop then [] else [CbStop]))
          | Panicking p c \<Rightarrow>
              StateExit \<notin> set (published (trace c)) \<and> (\<exists>t cb. trace c = t @ [Invoke cb]))"
proof (cases y)
  case (Normal c)
  with Manage_body_Normal[of fuel m sctx ds w c] assms show ?thesis by auto
next
  case (Panicking p c)
  with Manage_body_Panicking[of fuel m sctx ds w p c] assms show ?thesis by auto
qed

theorem Manage_exit_reports_witness:
  "Manage_body 5 (NewDefaultManager []) (cancel_after 4)
     (svc (fixed_runner NoError (Panics ''boom'') NoError NoError) RunUntilStoppedPolicy) 0
     = Some (Panicking ''boom''
        \<lparr>state = StateIdle, hasStopped = False, world = 2,
         trace = [NewTimer 10, UpdateState ''S1'' StateInit, Invoke CbInit,
           ResetTimer 0, UpdateState ''S1'' StateIdle, Invoke CbIdle]\<rparr>) \<and>
   published [NewTimer 10, UpdateState ''S1'' StateInit, Invoke CbInit,
           ResetTimer 0, UpdateState ''S1'' StateIdle, Invoke CbIdle] = [StateInit, StateIdle] \<and>
   map_option (published \<circ> trace \<circ> cfg_of)
     (Manage 5 (NewDefaultManager []) (cancel_after 4)
        (svc (fixed_runner NoError (Panics ''boom'') NoError NoError) RunUntilStoppedPolicy) 0)
     = Some [StateInit, StateIdle] \<and>
   map_option (invokes \<circ> trace \<circ> cfg_of)
     (Manage 5 (NewDefaultManager []) (cancel_after 4)
        (svc (fixed_runner NoError (Panics ''boom'') NoError NoError) RunUntilStoppedPolicy) 0)
     = Some [CbInit, CbIdle] \<and>
   Manage_body 3 (NewDefaultManager []) (cancel_after 2)
     (svc (fixed_runner NoError NoError NoError NoError) RunUntilStoppedPolicy) 0
     = Some (Normal
        \<lparr>state = StateExit, hasStopped = False, world = 3,
         trace = [NewTimer 10, UpdateState ''S1'' StateInit, Invoke CbInit,
           ResetTimer 0, UpdateState ''S1'' StateIdle, Invoke CbIdle,
           ResetTimer 0, UpdateState ''S1'' StateRun] @ [Invoke CbStop] @
           [UpdateState ''S1'' StateExit]\<rparr>) \<and>
   Manage_body 5 (NewDefaultManager []) (cancel_after 4)
     (svc (fixed_runner NoError NoError NoError NoError) RunUntilStoppedPolicy) 0
     = Some (Normal
        \<lparr>state = StateExit, hasStopped = True, world = 5,
         trace = [NewTimer 10, UpdateState ''S1'' StateInit, Invoke CbInit,
           ResetTimer 0, UpdateState ''S1'' StateIdle, Invoke CbIdle,
           ResetTimer 0, UpdateState ''S1'' StateRun, Invoke CbRun,
           ResetTimer 0, UpdateState ''S1'' StateStop, Invoke CbStop,
           ResetTimer 0, UpdateState ''S1'' StateInit] @ [] @
           [UpdateState ''S1'' StateExit]\<rparr>)"
  using
    Manage_exit_reports[where fuel = 5 and m = "NewDefaultManager []"
      and sctx = "cancel_after 4" and w = 0
      and ds = "svc (fixed_runner NoError (Panics ''boom'') NoError NoError) RunUntilStoppedPolicy"
      and y = "Panicking ''boom'' \<lparr>state = StateIdle, hasStopped = False, world = 2,
         trace = [NewTimer 10, UpdateState ''S1'' StateInit, Invoke CbInit,
           ResetTimer 0, UpdateState ''S1'' StateIdle, Invoke CbIdle]\<rparr>"]
  by (simp add: run_defs eval_nat_numeral published_def)

text \<open>
  Claim C3: when a callback panics, the manager captures the panic, logs an error,
  calls \<^verbatim>\<open>Stop\<close> and reports Exit. The code does the first two only. When the body
  of \<^verbatim>\<open>Manage\<close> panics, \<^verbatim>\<open>Manage\<close> returns, and all it adds to the events of the
  body is the stop of its timer and the error log of the recovered panic: the call
  that panicked stays the last call of a callback, so \<^verbatim>\<open>Stop\<close> is not called after
  it, and Exit is not among the reported states.
\<close>

theorem Manage_panic_recovered:
  assumes "Manage_body fuel m sctx ds w = Some (Panicking p c)"
  shows "Manage fuel m sctx ds w =
           Some (Normal (c\<lparr>trace := trace c @
             [StopTimer, SctxLog LevelError (''recovered from a panic: '' @ p)]\<rparr>)) \<and>
         (\<exists>t cb. trace c = t @ [Invoke cb]) \<and>
         StateExit \<notin> set (published (trace c))"
  using assms Manage_body_Panicking[OF assms]
  by (auto simp: Manage_def deferred_def emit_def)

theorem Manage_panic_recovered_witness:
  "Manage_body 5 (NewDefaultManager []) (cancel_after 4)
     (svc (fixed_runner NoError NoError (Panics ''intentional panic'') NoError) RunUntilStoppedPolicy) 0
     = Some (Panicking ''intentional panic''
        \<lparr>state = StateRun, hasStopped = False, world = 3,
         trace = [NewTimer 10, UpdateState ''S1'' StateInit, Invoke CbInit,
           ResetTimer 0, UpdateState ''S1'' StateIdle, Invoke CbIdle,
           ResetTimer 0, UpdateState ''S1'' StateRun, Invoke CbRun]\<rparr>) \<and>
   Manage 5 (NewDefaultManager []) (cancel_after 4)
     (svc (fixed_runner NoError NoError (Panics ''intentional panic'') NoError) RunUntilStoppedPolicy) 0
     = Some (Normal
        \<lparr>state = StateRun, hasStopped = False, world = 3,
         trace = [NewTimer 10, UpdateState ''S1'' StateInit, Invoke CbInit,
           ResetTimer 0, UpdateState ''S1'' StateIdle, Invoke CbIdle,
           ResetTimer 0, UpdateState ''S1'' StateRun, Invoke CbRun,
           StopTimer, SctxLog LevelError ''recovered from a panic: intentional panic'']\<rparr>)"
  using Manage_panic_recovered[where fuel = 5 and m = "NewDefaultManager []"
      and sctx = "cancel_after 4" and w = 0 and p = "''intentional panic''"
      and ds = "svc (fixed_runner NoError NoError (Panics ''intentional panic'') NoError) RunUntilStoppedPolicy"
      and c = "\<lparr>state = StateRun, hasStopped = False, world = 3,
         trace = [NewTimer 10, UpdateState ''S1'' StateInit, Invoke CbInit,
           ResetTimer 0, UpdateState ''S1'' StateIdle, Invoke CbIdle,
           ResetTimer 0, UpdateState ''S1'' StateRun, Invoke CbRun]\<rparr>"]
  by (simp add: run_defs eval_nat_numeral)

text \<open>
  Claim C5: every state the manager is about to enter is reported with
  \<^verbatim>\<open>updateState\<close> before the callback of that state runs, and Exit is reported
  exactly once. In the code, every call of a callback made by the loop comes right
  after the report of its state, after any number of passes and when the loop has
  ended, and the loop never reports Exit; when the loop has ended, \<^verbatim>\<open>Manage\<close>
  returns, and Exit has been reported once if the body returned and not at all if a
  callback panicked.
\<close>

theorem Manage_reports_states:
  assumes "Manage_loop fuel m sctx ds (init_cfg m w) = Some r"
  shows "announced (Name ds) (trace (cfg_of (passes n m sctx ds (init_cfg m w)))) \<and>
         announced (Name ds) (trace (cfg_of r)) \<and>
         (\<forall>i cb. i < length (trace (cfg_of r)) \<and> trace (cfg_of r) ! i = Invoke cb \<longrightarrow>
            0 < i \<and> trace (cfg_of r) ! (i - 1) = UpdateState (Name ds) (state_of cb)) \<and>
         StateExit \<notin> set (published (trace (cfg_of r))) \<and>
         (\<exists>y x. Manage_body fuel m sctx ds w = Some y \<and>
            Manage fuel m sctx ds w = Some (Normal x) \<and>
            count_list (published (trace x)) StateExit =
              (case y of Normal c \<Rightarrow> 1 | Panicking p c \<Rightarrow> 0))"
proof -
  from Manage_body_terminates[OF assms] obtain y where y: "Manage_body fuel m sctx ds w = Some y"
    by blast
  have "\<exists>x. Manage fuel m sctx ds w = Some (Normal x) \<and>
            count_list (published (trace x)) StateExit =
              (case y of Normal c \<Rightarrow> 1 | Panicking p c \<Rightarrow> 0)"
  proof (cases y)
    case (Normal c)
    from y Normal have "Manage_body fuel m sctx ds w = Some (Normal c)" by simp
    from Manage_body_Normal[OF this] obtain cl tail where
      "Manage_loop fuel m sctx ds (init_cfg m w) = Some (Normal cl)" and
      t: "trace c = trace cl @ tail @ [UpdateState (Name ds) StateExit]"
      "updates tail = []" "StateExit \<notin> set (published (trace cl))" by blast
    have "published (trace c) = published (trace cl) @ [StateExit]"
      using t(1,2) by (simp add: published_def updates_append)
    then have "count_list (published (trace c)) StateExit = 1"
      using t(3) by (simp add: count_list_0_iff)
    then show ?thesis
      using y Normal by (simp add: Manage_def deferred_def emit_def published_def updates_append)
  next
    case (Panicking p c)
    from y Panicking have "Manage_body fuel m sctx ds w = Some (Panicking p c)" by simp
    from Manage_body_Panicking[OF this]
    have "StateExit \<notin> set (published (trace c))" by blast
    then have "count_list (published (trace c)) StateExit = 0"
      by (simp add: count_list_0_iff)
    then show ?thesis
      using y Panicking by (simp add: Manage_def deferred_def emit_def published_def updates_append)
  qed
  moreover have a: "announced (Name ds) (trace (cfg_of r))"
    and "StateExit \<notin> set (published (trace (cfg_of r)))"
    using Manage_loop_announced[OF assms] by simp_all
  moreover have "\<forall>i cb. i < length (trace (cfg_of r)) \<and> trace (cfg_of r) ! i = Invoke cb \<longrightarrow>
      0 < i \<and> trace (cfg_of r) ! (i - 1) = UpdateState (Name ds) (state_of cb)"
    using announced_nth[OF a] by blast
  moreover have "announced (Name ds) (trace (cfg_of (passes n m sctx ds (init_cfg m w))))"
    using passes_path[of n m sctx ds w] by blast
  ultimately show ?thesis using y by blast
qed

theorem Manage_reports_states_witness:
  "Manage_loop 5 (NewDefaultManager []) (cancel_after 4)
     (svc (fixed_runner (Panics ''boom'') NoError NoError NoError) RunUntilStoppedPolicy)
     (init_cfg (NewDefaultManager []) 0)
     = Some (Panicking ''boom''
        \<lparr>state = StateInit, hasStopped = False, world = 1,
         trace = [NewTimer 10, UpdateState ''S1'' StateInit, Invoke CbInit]\<rparr>) \<and>
   announced ''S1'' [NewTimer 10, UpdateState ''S1'' StateInit, Invoke CbInit] \<and>
   Manage 5 (NewDefaultManager []) (cancel_after 4)
     (svc (fixed_runner (Panics ''boom'') NoError NoError NoError) RunUntilStoppedPolicy) 0
     = Some (Normal
        \<lparr>state = StateInit, hasStopped = False, world = 1,
         trace = [NewTimer 10, UpdateState ''S1'' StateInit, Invoke CbInit,
           StopTimer, SctxLog LevelError ''recovered from a panic: boom'']\<rparr>) \<and>
   count_list (published [NewTimer 10, UpdateState ''S1'' StateInit, Invoke CbInit,
           StopTimer, SctxLog LevelError ''recovered from a panic: boom'']) StateExit = 0"
  using Manage_reports_states[where fuel = 5 and m = "NewDefaultManager []"
      and sctx = "cancel_after 4" and w = 0 and n = 0
      and ds = "svc (fixed_runner (Panics ''boom'') NoError NoError NoError) RunUntilStoppedPolicy"
      and r = "Panicking ''boom'' \<lparr>state = StateInit, hasStopped = False, world = 1,
         trace = [NewTimer 10, UpdateState ''S1'' StateInit, Invoke CbInit]\<rparr>"]
  by (simp add: run_defs eval_nat_numeral published_def)

section \<open>The claims about the watches\<close>

text \<open>
  The map that the loop of \<^verbatim>\<open>WatchAllServices\<close> builds holds the names of
  \<^verbatim>\<open>services\<close> that satisfy the predicate of the specification, each with its state
  in the snapshot.
\<close>

lemma interested_step_eq:
  "interested_step action target states acc nm =
     (if satisfies action target states nm then acc(nm := states nm) else acc)"
  by (cases action) (auto simp: interested_step_def satisfies_def split: option.splits)

lemma interested_foldl:
  "foldl (interested_step action target states) acc services =
     (\<lambda>nm. if nm \<in> set services \<and> satisfies action target states nm then states nm else acc nm)"
proof (induction services arbitrary: acc)
  case Nil
  then show ?case by simp
next
  case (Cons a services)
  let ?f = "interested_step action target states"
  have "foldl ?f acc (a # services) = foldl ?f (?f acc a) services" by simp
  also have "\<dots> = (\<lambda>nm. if nm \<in> set services \<and> satisfies action target states nm
                       then states nm else ?f acc a nm)"
    by (rule Cons.IH)
  also have "\<dots> = (\<lambda>nm. if nm \<in> set (a # services) \<and> satisfies action target states nm
                       then states nm else acc nm)"
    by (auto simp: interested_step_eq fun_eq_iff)
  finally show ?case .
qed

lemma satisfies_Some: "satisfies action target states nm \<Longrightarrow> \<exists>v. states nm = Some v"
  by (cases action) (auto simp: satisfies_def split: option.splits)

lemma interested_dom:
  "dom (foldl (interested_step action target states) Map.empty services) =
     {nm \<in> set services. satisfies action target states nm}"
  by (auto simp: interested_foldl dom_def dest: satisfies_Some split: if_splits)

lemma card_filter_eq_length:
  "card {x \<in> set xs. P x} = length xs \<longleftrightarrow> distinct xs \<and> (\<forall>x\<in>set xs. P x)"
proof
  assume eq: "card {x \<in> set xs. P x} = length xs"
  have sub: "{x \<in> set xs. P x} \<subseteq> set xs" by auto
  have "card {x \<in> set xs. P x} \<le> card (set xs)" by (rule card_mono) (use sub in auto)
  moreover have "card (set xs) \<le> length xs" by (rule card_length)
  ultimately have c: "card (set xs) = length xs" and e: "card {x \<in> set xs. P x} = card (set xs)"
    using eq by auto
  from c have "distinct xs" by (rule card_distinct)
  moreover from e sub have "{x \<in> set xs. P x} = set xs"
    by (intro card_subset_eq) auto
  ultimately show "distinct xs \<and> (\<forall>x\<in>set xs. P x)" by auto
next
  assume "distinct xs \<and> (\<forall>x\<in>set xs. P x)"
  then have "{x \<in> set xs. P x} = set xs" and "distinct xs" by auto
  then show "card {x \<in> set xs. P x} = length xs" by (simp add: distinct_card)
qed

text \<open>
  Claim C6: a watch made by \<^verbatim>\<open>WatchAllServices\<close> emits exactly when every name
  satisfies the predicate, and what it emits are these names with their states; with
  no names it emits the empty snapshot every time. The code compares the size of the
  map it has built with the length of \<^verbatim>\<open>services\<close>, so it emits exactly when every
  name satisfies the predicate and, besides, no name is given twice: a list that
  repeats a name never makes the watch emit. When it emits, the map is the snapshot
  restricted to the names.
\<close>

theorem WatchAllServices_emits:
  "WatchAllServices action target services states =
     (if distinct services \<and> (\<forall>nm\<in>set services. satisfies action target states nm)
      then Some (states |` set services) else None)"
proof -
  have "foldl (interested_step action target states) Map.empty services = states |` set services"
    if "\<forall>nm\<in>set services. satisfies action target states nm"
    using that by (auto simp: interested_foldl restrict_map_def fun_eq_iff)
  then show ?thesis
    unfolding WatchAllServices_def Let_def interested_dom card_filter_eq_length by auto
qed

theorem WatchAllServices_emits_witness:
  "WatchAllServices Entering StateRun [''a'', ''a''] [''a'' \<mapsto> StateRun] = None \<and>
   satisfies Entering StateRun [''a'' \<mapsto> StateRun] ''a'' \<and>
   \<not> distinct [''a'', ''a'']"
  using WatchAllServices_emits[of Entering StateRun "[''a'', ''a'']" "[''a'' \<mapsto> StateRun]"]
  by (simp add: satisfies_def)

text \<open>
  The map that the loop of \<^verbatim>\<open>WatchAllStates\<close> builds, for each of the two modes that
  filter, whatever the order of the visit.
\<close>

lemma filter_foldl_Include:
  assumes "Mode flt = Include" and "distinct (map fst entries)"
  shows "foldl (filter_step flt) acc entries =
     (\<lambda>nm. if nm \<in> Names flt \<and> nm \<in> fst ` set entries then map_of entries nm else acc nm)"
  using assms(2)
proof (induction entries arbitrary: acc)
  case Nil
  then show ?case by simp
next
  case (Cons a entries)
  obtain k v where a: "a = (k, v)" by (cases a)
  from Cons.prems have d: "distinct (map fst entries)" and k: "k \<notin> fst ` set entries"
    by (auto simp: a)
  have "foldl (filter_step flt) acc (a # entries) = foldl (filter_step flt) (filter_step flt acc a) entries"
    by simp
  also have "\<dots> = (\<lambda>nm. if nm \<in> Names flt \<and> nm \<in> fst ` set entries then map_of entries nm
                       else filter_step flt acc a nm)"
    by (rule Cons.IH[OF d])
  also have "\<dots> = (\<lambda>nm. if nm \<in> Names flt \<and> nm \<in> fst ` set (a # entries)
                       then map_of (a # entries) nm else acc nm)"
    using k by (auto simp: a filter_step_def assms(1) fun_eq_iff)
  finally show ?case .
qed

lemma filter_foldl_Exclude:
  assumes "Mode flt = Exclude" and "distinct (map fst entries)"
  shows "foldl (filter_step flt) acc entries =
     (\<lambda>nm. if nm \<notin> Names flt \<and> nm \<in> fst ` set entries then map_of entries nm else acc nm)"
  using assms(2)
proof (induction entries arbitrary: acc)
  case Nil
  then show ?case by simp
next
  case (Cons a entries)
  obtain k v where a: "a = (k, v)" by (cases a)
  from Cons.prems have d: "distinct (map fst entries)" and k: "k \<notin> fst ` set entries"
    by (auto simp: a)
  have "foldl (filter_step flt) acc (a # entries) = foldl (filter_step flt) (filter_step flt acc a) entries"
    by simp
  also have "\<dots> = (\<lambda>nm. if nm \<notin> Names flt \<and> nm \<in> fst ` set entries then map_of entries nm
                       else filter_step flt acc a nm)"
    by (rule Cons.IH[OF d])
  also have "\<dots> = (\<lambda>nm. if nm \<notin> Names flt \<and> nm \<in> fst ` set (a # entries)
                       then map_of (a # entries) nm else acc nm)"
    using k by (auto simp: a filter_step_def assms(1) fun_eq_iff)
  finally show ?case .
qed

text \<open>
  Claim C7: a watch made by \<^verbatim>\<open>WatchAllStates\<close> forwards the snapshot unchanged when
  the mode is None or the set of names is empty; with the mode Include it emits exactly
  the entries whose names are in the set, with the mode Exclude exactly the entries
  whose names are not. This holds for every order in which the loop visits the entries
  of the snapshot.
\<close>

theorem WatchAllStates_filters:
  assumes "range_of states entries"
  shows "WatchAllStates flt states entries =
     Some (if Mode flt = None_Mode \<or> Names flt = {} then states
           else if Mode flt = Include then states |` Names flt
           else states |` (- Names flt))"
proof -
  from assms have d: "distinct (map fst entries)" and m: "map_of entries = states"
    by (simp_all add: range_of_def)
  have dom: "nm \<in> fst ` set entries \<longleftrightarrow> states nm \<noteq> None" for nm
    using m by (metis map_of_eq_None_iff)
  show ?thesis
  proof (cases "Mode flt")
    case None_Mode
    then show ?thesis by (simp add: WatchAllStates_def)
  next
    case Include
    have "foldl (filter_step flt) Map.empty entries = states |` Names flt"
      using dom by (auto simp: filter_foldl_Include[OF Include d] m restrict_map_def fun_eq_iff)
    with Include show ?thesis by (simp add: WatchAllStates_def)
  next
    case Exclude
    have "foldl (filter_step flt) Map.empty entries = states |` (- Names flt)"
      using dom by (auto simp: filter_foldl_Exclude[OF Exclude d] m restrict_map_def fun_eq_iff)
    with Exclude show ?thesis by (simp add: WatchAllStates_def)
  qed
qed

theorem WatchAllStates_filters_witness:
  "range_of states1 entries1 \<and>
   WatchAllStates \<lparr>Mode = Include, Names = {''a''}\<rparr> states1 entries1 = Some (states1 |` {''a''}) \<and>
   WatchAllStates \<lparr>Mode = Exclude, Names = {''a''}\<rparr> states1 entries1 = Some (states1 |` (- {''a''})) \<and>
   WatchAllStates \<lparr>Mode = None_Mode, Names = {''a''}\<rparr> states1 entries1 = Some states1 \<and>
   WatchAllStates \<lparr>Mode = Include, Names = {}\<rparr> states1 entries1 = Some states1 \<and>
   (states1 |` {''a''}) ''a'' = Some StateRun \<and> (states1 |` {''a''}) ''b'' = None"
proof -
  have r: "range_of states1 entries1"
    by (simp add: range_of_def states1_def entries1_def)
  show ?thesis
    using r
      WatchAllStates_filters[OF r, of "\<lparr>Mode = Include, Names = {''a''}\<rparr>"]
      WatchAllStates_filters[OF r, of "\<lparr>Mode = Exclude, Names = {''a''}\<rparr>"]
      WatchAllStates_filters[OF r, of "\<lparr>Mode = None_Mode, Names = {''a''}\<rparr>"]
      WatchAllStates_filters[OF r, of "\<lparr>Mode = Include, Names = {}\<rparr>"]
    by (simp add: states1_def)
qed

section \<open>The claim about the topic\<close>

text \<open>
  Claim C8: the operations of the topic fail exactly as enumerated. \<^verbatim>\<open>Subscribe\<close>
  fails with TopicClosed on a closed topic and with GroupExists when the group exists
  and \<^verbatim>\<open>ErrIfExists\<close> is set; otherwise it returns the channel of the group, which for
  a new group is a channel made for it. \<^verbatim>\<open>Unsubscribe\<close> fails with TopicClosed on a
  closed topic and with GroupUnknown when the group is not subscribed, and not
  otherwise. \<^verbatim>\<open>Close\<close> fails with AlreadyClosed on a closed topic only. A second
  \<^verbatim>\<open>Close\<close> always fails with AlreadyClosed. After an \<^verbatim>\<open>Unsubscribe\<close> that
  succeeded, and more generally on every open topic, a second \<^verbatim>\<open>Unsubscribe\<close> of
  the same group fails with GroupUnknown (on a closed topic both calls fail with
  TopicClosed, as the enumeration says).
\<close>

theorem topic_failure_modes:
  "fst (Subscribe conf t) =
     (if closed t then Inl (TopicClosed ''subscribe'')
      else case subscribers t (ConsumerGroup conf) of
             Some sub \<Rightarrow>
               if ErrIfExists conf then Inl (GroupExists (ConsumerGroup conf)) else Inr (ch sub)
           | None \<Rightarrow> Inr (made t)) \<and>
   (\<not> closed t \<and> subscribers t (ConsumerGroup conf) = None \<longrightarrow>
      subscribers (snd (Subscribe conf t)) (ConsumerGroup conf) = Some \<lparr>ch = made t\<rparr> \<and>
      made (snd (Subscribe conf t)) = Suc (made t)) \<and>
   fst (Unsubscribe g t) =
     (if closed t then Some (TopicClosed ''unsubscribe'')
      else if subscribers t g = None then Some (GroupUnknown g) else None) \<and>
   fst (Close t) = (if closed t then Some AlreadyClosed else None) \<and>
   fst (Close (snd (Close t))) = Some AlreadyClosed \<and>
   (fst (Unsubscribe g t) = None \<longrightarrow>
      fst (Unsubscribe g (snd (Unsubscribe g t))) = Some (GroupUnknown g)) \<and>
   fst (Unsubscribe g (snd (Unsubscribe g t))) =
     (if closed t then Some (TopicClosed ''unsubscribe'') else Some (GroupUnknown g))"
  by (auto simp: Subscribe_def Unsubscribe_def Close_def newSubscriber_def close_subscriber_def
        Let_def split: option.splits)

theorem topic_failure_modes_witness:
  "\<not> closed topic1 \<and>
   subscribers topic1 ''g2'' = None \<and>
   fst (Subscribe \<lparr>ConsumerGroup = ''g2'', ErrIfExists = True, BufferSize = 1,
      BufferPolicy = DropOldest\<rparr> topic1) = Inr 1 \<and>
   fst (Subscribe \<lparr>ConsumerGroup = ''g1'', ErrIfExists = True, BufferSize = 1,
      BufferPolicy = DropOldest\<rparr> topic1) = Inl (GroupExists ''g1'') \<and>
   fst (Unsubscribe ''g1'' topic1) = None \<and>
   fst (Unsubscribe ''g1'' (snd (Unsubscribe ''g1'' topic1))) = Some (GroupUnknown ''g1'') \<and>
   fst (Close topic1) = None \<and>
   fst (Close (snd (Close topic1))) = Some AlreadyClosed \<and>
   fst (Subscribe \<lparr>ConsumerGroup = ''g2'', ErrIfExists = True, BufferSize = 1,
      BufferPolicy = DropOldest\<rparr> (snd (Close topic1))) = Inl (TopicClosed ''subscribe'')"
  using
    topic_failure_modes[where t = topic1 and g = "''g1''" and conf = "\<lparr>ConsumerGroup = ''g2'',
      ErrIfExists = True, BufferSize = 1, BufferPolicy = DropOldest\<rparr>"]
    topic_failure_modes[where t = topic1 and g = "''g1''" and conf = "\<lparr>ConsumerGroup = ''g1'',
      ErrIfExists = True, BufferSize = 1, BufferPolicy = DropOldest\<rparr>"]
    topic_failure_modes[where t = "snd (Close topic1)" and g = "''g1''" and conf = "\<lparr>ConsumerGroup = ''g2'',
      ErrIfExists = True, BufferSize = 1, BufferPolicy = DropOldest\<rparr>"]
  by (simp add: topic1_def newTopic_def Subscribe_def Unsubscribe_def Close_def newSubscriber_def
        close_subscriber_def)

section \<open>The claims about the service context\<close>

text \<open>
  What \<^verbatim>\<open>append\<close> does to the slice it is given and to the other slices of the store.
\<close>

lemma array_at_update:
  "array_at (h\<lparr>arrays := (arrays h)[a := xs]\<rparr>) a' =
     (if a' = a \<and> a < length (arrays h) then xs else array_at h a')"
  by (simp add: array_at_def)

lemma array_at_snoc:
  "array_at (h\<lparr>arrays := arrays h @ [xs]\<rparr>) a' =
     (if a' = length (arrays h) then xs else array_at h a')"
  by (simp add: array_at_def nth_append)

lemma valid_in_range: "valid h s \<Longrightarrow> 0 < cap s \<Longrightarrow> arr s < length (arrays h)"
  by (auto simp: valid_def array_at_def split: if_splits)

lemma elems_length: "valid h s \<Longrightarrow> length (elems h s) = len s"
  by (auto simp: elems_def valid_def min_def)

lemma overwrite_length: "i + length xs \<le> length A \<Longrightarrow> length (overwrite A i xs) = length A"
  by (simp add: overwrite_def)

lemma overwrite_nth:
  assumes "i + length xs \<le> length A" and "p < i \<or> i + length xs \<le> p" and "p < length A"
  shows "overwrite A i xs ! p = A ! p"
  using assms by (auto simp: overwrite_def nth_append)

lemma window_written:
  assumes "i + k \<le> length A"
  shows "take (k + length xs) (drop i (overwrite A (i + k) xs)) = take k (drop i A) @ xs"
proof -
  have "drop i (overwrite A (i + k) xs) =
      drop i (take (i + k) A) @ xs @ drop (i + k + length xs) A"
    using assms by (simp add: overwrite_def)
  also have "drop i (take (i + k) A) = take k (drop i A)"
    by (simp add: drop_take)
  finally show ?thesis using assms by simp
qed

lemma window_kept:
  assumes "i + length xs \<le> length A" and "j + l \<le> i \<or> i + length xs \<le> j"
  shows "take l (drop j (overwrite A i xs)) = take l (drop j A)"
proof (rule nth_equalityI)
  show "length (take l (drop j (overwrite A i xs))) = length (take l (drop j A))"
    by (simp add: overwrite_length[OF assms(1)])
next
  fix p assume "p < length (take l (drop j (overwrite A i xs)))"
  then have p: "p < l" "j + p < length A"
    by (auto simp: overwrite_length[OF assms(1)])
  have "overwrite A i xs ! (j + p) = A ! (j + p)"
    using assms p by (intro overwrite_nth) auto
  then show "take l (drop j (overwrite A i xs)) ! p = take l (drop j A) ! p"
    using p by (simp add: overwrite_length[OF assms(1)])
qed

lemma append_slice_in_place:
  assumes "len s + length xs \<le> cap s"
  shows "append_slice s xs h =
     (s\<lparr>len := len s + length xs\<rparr>,
      h\<lparr>arrays := (arrays h)[arr s := overwrite (array_at h (arr s)) (off s + len s) xs]\<rparr>)"
  using assms by (simp add: append_slice_def Let_def)

lemma append_slice_grows:
  assumes "\<not> len s + length xs \<le> cap s"
  shows "append_slice s xs h =
     (\<lparr>arr = length (arrays h), off = 0, len = len s + length xs,
        cap = max (len s + length xs) (room h (len s + length xs))\<rparr>,
      h\<lparr>arrays := arrays h @ [elems h s @ xs @
         replicate (max (len s + length xs) (room h (len s + length xs)) - (len s + length xs))
           zero_Field]\<rparr>)"
  using assms by (simp add: append_slice_def Let_def)

lemma append_slice_elems:
  assumes "valid h s" and "append_slice s xs h = (s', h')"
  shows "elems h' s' = elems h s @ xs"
proof (cases "len s + length xs \<le> cap s")
  case True
  note ip = assms(2)[unfolded append_slice_in_place[OF True]]
  show ?thesis
  proof (cases "arr s < length (arrays h)")
    case r: True
    have l: "off s + len s \<le> length (array_at h (arr s))"
      using assms(1) by (simp add: valid_def)
    show ?thesis using ip r window_written[OF l]
      by (auto simp: elems_def array_at_update)
  next
    case False
    then have "cap s = 0" using valid_in_range[OF assms(1)] by auto
    with True have "xs = []" "len s = 0" by auto
    then show ?thesis using ip by (auto simp: elems_def)
  qed
next
  case False
  note g = assms(2)[unfolded append_slice_grows[OF False]]
  show ?thesis using g elems_length[OF assms(1)]
    by (auto simp: elems_def array_at_snoc)
qed

lemma append_slice_valid:
  assumes "valid h s" and "append_slice s xs h = (s', h')"
  shows "valid h' s'"
proof (cases "len s + length xs \<le> cap s")
  case True
  note ip = assms(2)[unfolded append_slice_in_place[OF True]]
  have l: "off s + cap s \<le> length (array_at h (arr s))" "len s \<le> cap s"
    using assms(1) by (simp_all add: valid_def)
  have ol: "length (overwrite (array_at h (arr s)) (off s + len s) xs) = length (array_at h (arr s))"
    using True l by (intro overwrite_length) simp
  show ?thesis
  proof (cases "arr s < length (arrays h)")
    case r: True
    show ?thesis using ip True r l ol
      by (auto simp: valid_def array_at_update)
  next
    case False
    then show ?thesis using ip True l
      by (auto simp: valid_def array_at_def)
  qed
next
  case False
  note g = assms(2)[unfolded append_slice_grows[OF False]]
  show ?thesis using g elems_length[OF assms(1)]
    by (auto simp: valid_def array_at_snoc)
qed

lemma append_slice_keeps_valid:
  assumes "valid h s" and "valid h t" and "append_slice s xs h = (s', h')"
  shows "valid h' t"
proof (cases "len s + length xs \<le> cap s")
  case True
  note ip = assms(3)[unfolded append_slice_in_place[OF True]]
  have l: "off s + cap s \<le> length (array_at h (arr s))" "len s \<le> cap s"
    using assms(1) by (simp_all add: valid_def)
  have ol: "length (overwrite (array_at h (arr s)) (off s + len s) xs) = length (array_at h (arr s))"
    using True l by (intro overwrite_length) simp
  show ?thesis
  proof (cases "arr s < length (arrays h)")
    case r: True
    show ?thesis using ip assms(2) True r l ol
      by (auto simp: valid_def array_at_update)
  next
    case False
    then show ?thesis using ip assms(2)
      by (auto simp: valid_def array_at_def)
  qed
next
  case False
  note g = assms(3)[unfolded append_slice_grows[OF False]]
  show ?thesis
  proof (cases "arr t < length (arrays h)")
    case True
    then show ?thesis using g assms(2)
      by (auto simp: valid_def array_at_snoc)
  next
    case nr: False
    then have "cap t = 0" "off t = 0" using assms(2) by (auto simp: valid_def array_at_def)
    then show ?thesis using assms(2) by (simp add: valid_def)
  qed
qed

lemma append_slice_elems_other:
  assumes "valid h s" and "valid h t" and "append_slice s xs h = (s', h')"
    and "cap s < len s + length xs \<or> arr t \<noteq> arr s \<or>
         off t + len t \<le> off s + len s \<or> off s + len s + length xs \<le> off t"
  shows "elems h' t = elems h t"
proof (cases "len s + length xs \<le> cap s")
  case True
  note ip = assms(3)[unfolded append_slice_in_place[OF True]]
  have l: "off s + len s + length xs \<le> length (array_at h (arr s))"
    using assms(1) True by (simp add: valid_def)
  show ?thesis
  proof (cases "arr t = arr s \<and> arr s < length (arrays h)")
    case same: True
    then have d: "off t + len t \<le> off s + len s \<or> off s + len s + length xs \<le> off t"
      using assms(4) True by auto
    show ?thesis using ip same window_kept[OF l d]
      by (auto simp: elems_def array_at_update)
  next
    case False
    then show ?thesis using ip
      by (auto simp: elems_def array_at_def)
  qed
next
  case False
  note g = assms(3)[unfolded append_slice_grows[OF False]]
  show ?thesis
  proof (cases "arr t < length (arrays h)")
    case True
    then show ?thesis using g
      by (auto simp: elems_def array_at_snoc)
  next
    case nr: False
    then have "len t = 0" using assms(2) by (auto simp: valid_def array_at_def)
    then show ?thesis by (simp add: elems_def)
  qed
qed

lemma WithFields_result:
  assumes "WithFields sc given h = (sc', h')"
  shows "append_slice given (elems h (fields' sc)) h = (fields' sc', h')"
    and "Context sc' = Context sc" and "name sc' = name sc" and "logC sc' = logC sc"
    and "icStates sc' = icStates sc"
  using assms by (auto simp: WithFields_def split: prod.splits)

lemma WithFields_twice:
  assumes "valid h a" and "valid h b"
    and "WithFields sc a h = (sc', h')" and "WithFields sc' b h' = (sc'', h'')"
  shows "elems h'' (fields' sc'') = elems h' b @ elems h a @ elems h (fields' sc)"
proof -
  note r1 = WithFields_result(1)[OF assms(3)]
  note r2 = WithFields_result(1)[OF assms(4)]
  have vb: "valid h' b" using append_slice_keeps_valid[OF assms(1,2) r1] .
  have "elems h'' (fields' sc'') = elems h' b @ elems h' (fields' sc')"
    using append_slice_elems[OF vb r2] .
  also have "elems h' (fields' sc') = elems h a @ elems h (fields' sc)"
    using append_slice_elems[OF assms(1) r1] .
  finally show ?thesis .
qed

text \<open>
  Claim C9: the fields of \<^verbatim>\<open>sc.WithFields(a).WithFields(b)\<close> are \<open>b\<close>, then \<open>a\<close>,
  then the fields of \<open>sc\<close>; the cancellation scope, the name, the log channel and the
  topic handle are those of \<open>sc\<close>. The second half holds. For the first, the fields
  of the result are the elements that \<open>b\<close> has at the second call, then those of
  \<open>a\<close>, then those of \<open>sc\<close>: \<^verbatim>\<open>WithFields\<close> appends the fields of the context to the
  slice of its caller, in the caller's array when the capacity allows it, so the first
  call can write over the elements of \<open>b\<close> when \<open>a\<close> and \<open>b\<close> are windows on one
  array. The result is \<open>b\<close>, \<open>a\<close>, the fields of \<open>sc\<close> exactly when the first call
  leaves the elements of \<open>b\<close> as they were; it does so when \<open>a\<close> has no room for the
  fields of \<open>sc\<close> (as when the arguments are given one by one), when \<open>a\<close> and
  \<open>b\<close> are on different arrays, and when the window of \<open>b\<close> lies outside the places
  written.
\<close>

theorem WithFields_concatenates:
  assumes "valid h a" and "valid h b"
    and "WithFields sc a h = (sc', h')" and "WithFields sc' b h' = (sc'', h'')"
  shows "elems h'' (fields' sc'') = elems h' b @ elems h a @ elems h (fields' sc) \<and>
         (elems h'' (fields' sc'') = elems h b @ elems h a @ elems h (fields' sc))
           = (elems h' b = elems h b) \<and>
         (cap a < len a + length (elems h (fields' sc)) \<or> arr b \<noteq> arr a \<or>
          off b + len b \<le> off a + len a \<or>
          off a + len a + length (elems h (fields' sc)) \<le> off b \<longrightarrow>
            elems h'' (fields' sc'') = elems h b @ elems h a @ elems h (fields' sc)) \<and>
         Context sc'' = Context sc \<and> name sc'' = name sc \<and> logC sc'' = logC sc \<and>
         icStates sc'' = icStates sc"
proof -
  have eq: "elems h'' (fields' sc'') = elems h' b @ elems h a @ elems h (fields' sc)"
    using WithFields_twice[OF assms] .
  have kept: "elems h' b = elems h b"
    if "cap a < len a + length (elems h (fields' sc)) \<or> arr b \<noteq> arr a \<or>
          off b + len b \<le> off a + len a \<or>
          off a + len a + length (elems h (fields' sc)) \<le> off b"
    using append_slice_elems_other[OF assms(1,2) WithFields_result(1)[OF assms(3)] that] .
  show ?thesis
    using eq kept WithFields_result(2-5)[OF assms(3)] WithFields_result(2-5)[OF assms(4)]
    by simp
qed

theorem WithFields_concatenates_witness:
  "valid store1 (reslice base1 0 1) \<and> valid store1 (reslice base1 1 2) \<and>
   elems store1 (reslice base1 0 1) = [String ''k'' ''A''] \<and>
   elems store1 (reslice base1 1 2) = [String ''k'' ''B''] \<and>
   elems store1 (fields' sc2) = [String ''service'' ''S1'', String ''service'' ''S1''] \<and>
   elems (snd (WithFields sc2 (reslice base1 0 1) store1)) (reslice base1 1 2)
     = [String ''service'' ''S1''] \<and>
   elems (snd (WithFields (fst (WithFields sc2 (reslice base1 0 1) store1)) (reslice base1 1 2)
                 (snd (WithFields sc2 (reslice base1 0 1) store1))))
     (fields' (fst (WithFields (fst (WithFields sc2 (reslice base1 0 1) store1)) (reslice base1 1 2)
                 (snd (WithFields sc2 (reslice base1 0 1) store1)))))
     = [String ''service'' ''S1'', String ''k'' ''A'', String ''service'' ''S1'',
        String ''service'' ''S1''] \<and>
   elems store1 (reslice base1 1 2) @ elems store1 (reslice base1 0 1) @ elems store1 (fields' sc2)
     = [String ''k'' ''B'', String ''k'' ''A'', String ''service'' ''S1'',
        String ''service'' ''S1''] \<and>
   valid store1 arg_A \<and> valid store1 arg_B \<and>
   elems store1 arg_A = [String ''k'' ''A''] \<and> elems store1 arg_B = [String ''k'' ''B''] \<and>
   cap arg_A < len arg_A + length (elems store1 (fields' sc2)) \<and>
   elems (snd (WithFields (fst (WithFields sc2 arg_A store1)) arg_B
                 (snd (WithFields sc2 arg_A store1))))
     (fields' (fst (WithFields (fst (WithFields sc2 arg_A store1)) arg_B
                 (snd (WithFields sc2 arg_A store1)))))
     = [String ''k'' ''B'', String ''k'' ''A'', String ''service'' ''S1'',
        String ''service'' ''S1''] \<and>
   Context (fst (WithFields (fst (WithFields sc2 arg_A store1)) arg_B
                 (snd (WithFields sc2 arg_A store1)))) = WithCancel Background 0"
  using
    WithFields_concatenates[where h = store1 and sc = sc2 and a = "reslice base1 0 1"
      and b = "reslice base1 1 2"
      and sc' = "fst (WithFields sc2 (reslice base1 0 1) store1)"
      and h' = "snd (WithFields sc2 (reslice base1 0 1) store1)"
      and sc'' = "fst (WithFields (fst (WithFields sc2 (reslice base1 0 1) store1))
                 (reslice base1 1 2) (snd (WithFields sc2 (reslice base1 0 1) store1)))"
      and h'' = "snd (WithFields (fst (WithFields sc2 (reslice base1 0 1) store1))
                 (reslice base1 1 2) (snd (WithFields sc2 (reslice base1 0 1) store1)))"]
    WithFields_concatenates[where h = store1 and sc = sc2 and a = arg_A and b = arg_B
      and sc' = "fst (WithFields sc2 arg_A store1)"
      and h' = "snd (WithFields sc2 arg_A store1)"
      and sc'' = "fst (WithFields (fst (WithFields sc2 arg_A store1)) arg_B
                 (snd (WithFields sc2 arg_A store1)))"
      and h'' = "snd (WithFields (fst (WithFields sc2 arg_A store1)) arg_B
                 (snd (WithFields sc2 arg_A store1)))"]
  by (simp add: valid_def store1_def base1_def arg_A_def arg_B_def sc2_def reslice_def elems_def
        array_at_def WithFields_def append_slice_def overwrite_def Let_def String_def)

text \<open>
  Claim C10: for a name that is not empty, the context made by
  \<^verbatim>\<open>newServiceContextWithCancel\<close> has the field \<^verbatim>\<open>("service", name)\<close> twice, since
  the slice of initial fields is appended to itself; every record that \<^verbatim>\<open>Log\<close> sends
  for this context ends with the two copies, after the fields of the call.
\<close>

theorem newServiceContext_service_field_twice:
  assumes "nm \<noteq> []"
  shows "fields' (fst (newServiceContextWithCancel parent k nm lc ic)) =
           [String ''service'' nm, String ''service'' nm] \<and>
         Log (fst (newServiceContextWithCancel parent k nm lc ic)) level message fs sent lc =
           sent lc @ [\<lparr>LogName = nm, LogLevel = level, Message = message,
                        Fields = fs @ [String ''service'' nm, String ''service'' nm]\<rparr>] \<and>
         count_list (Fields (last (Log (fst (newServiceContextWithCancel parent k nm lc ic))
             level message fs sent lc))) (String ''service'' nm) \<ge> 2"
  using assms by (simp add: newServiceContextWithCancel_def Log_def Let_def)

theorem newServiceContext_service_field_twice_witness:
  "''S1'' \<noteq> [] \<and>
   Log sc1 LevelError ''failed'' [] (\<lambda>c. []) 7 =
     [\<lparr>LogName = ''S1'', LogLevel = 3, Message = ''failed'',
       Fields = [String ''service'' ''S1'', String ''service'' ''S1'']\<rparr>]"
  using newServiceContext_service_field_twice[where nm = "''S1''" and parent = Background
      and k = 0 and lc = 7 and ic = 3 and level = LevelError and message = "''failed''"
      and fs = "[]" and sent = "\<lambda>c. []"]
  by (simp add: sc1_def LevelError_def newServiceContextWithCancel_def Let_def)

end
